theory Spec2Isabelle
  imports Main "HOL-Library.Sublist" "HOL-Library.Multiset" "HOL-Library.Word"
    "HOL-Library.List_Lexorder" "HOL-Library.Char_ord"
begin

unbundle bit_operations_syntax

section \<open>Strings as Go has them\<close>

text \<open>
  A Go \<open>string\<close> is a sequence of bytes; \<^typ>\<open>string\<close> (a list of 8-bit characters)
  is the same thing. The functions of package \<open>strings\<close> that \<open>apply_migrations.go\<close>
  calls are written out below on byte lists.
\<close>

subsection \<open>\<open>strings.Index\<close>, \<open>strings.Split\<close>, \<open>strings.SplitN\<close>, \<open>strings.Join\<close>\<close>

text \<open>
  \<open>strings.Index(s, sep)\<close>: the byte offset of the leftmost occurrence of \<open>sep\<close> in
  \<open>s\<close>; Go's \<open>-1\<close> is \<open>None\<close>.
\<close>

fun strings_Index :: "string \<Rightarrow> string \<Rightarrow> nat option" where
  "strings_Index [] sep = (if sep = [] then Some 0 else None)"
| "strings_Index (c # cs) sep =
     (if prefix sep (c # cs) then Some 0 else map_option Suc (strings_Index cs sep))"

text \<open>
  \<open>strings.Split(s, sep)\<close> is \<open>genSplit(s, sep, 0, -1)\<close>: while \<open>sep\<close> occurs, cut
  \<open>s[:m]\<close> off and go on with \<open>s[m+len(sep):]\<close>; the rest is the last piece. For an
  empty \<open>sep\<close> Go explodes \<open>s\<close> into its UTF-8 sequences instead; the program only
  passes the non-empty literals, and the model returns the single bytes there.
\<close>

function strings_Split :: "string \<Rightarrow> string \<Rightarrow> string list" where
  "strings_Split s sep =
     (if sep = [] then map (\<lambda>c. [c]) s
      else case strings_Index s sep of
             None \<Rightarrow> [s]
           | Some m \<Rightarrow> take m s # strings_Split (drop (m + length sep) s) sep)"
  by pat_completeness auto

lemma strings_Index_nonempty:
  "strings_Index s sep = Some m \<Longrightarrow> sep \<noteq> [] \<Longrightarrow> s \<noteq> []"
  by (cases s) auto

termination strings_Split
proof (relation "measure (\<lambda>(s, sep). length s)")
  show "wf (measure (\<lambda>(s, sep). length s))" by simp
next
  fix s sep :: string and m :: nat
  assume "sep \<noteq> []" and "strings_Index s sep = Some m"
  then have "s \<noteq> []" by (rule strings_Index_nonempty[rotated])
  with \<open>sep \<noteq> []\<close>
  show "((drop (m + length sep) s, sep), (s, sep)) \<in> measure (\<lambda>(s, sep). length s)"
    by (cases s; cases sep) auto
qed

declare strings_Split.simps [simp del]

text \<open>
  \<open>strings.SplitN(s, sep, 2)\<close> is \<open>genSplit(s, sep, 0, 2)\<close>: at most one cut, at the
  leftmost occurrence of \<open>sep\<close>. (For \<open>s = ""\<close> Go lowers \<open>n\<close> to \<open>len(s)+1 = 1\<close> and
  returns the one piece \<open>""\<close>, which is the \<open>None\<close> branch here.)
\<close>

definition strings_SplitN2 :: "string \<Rightarrow> string \<Rightarrow> string list" where
  "strings_SplitN2 s sep =
     (case strings_Index s sep of
        None \<Rightarrow> [s]
      | Some m \<Rightarrow> [take m s, drop (m + length sep) s])"

text \<open>\<open>strings.Join(elems, sep)\<close>.\<close>

fun strings_Join :: "string list \<Rightarrow> string \<Rightarrow> string" where
  "strings_Join [] sep = []"
| "strings_Join [a] sep = a"
| "strings_Join (a # b # bs) sep = a @ sep @ strings_Join (b # bs) sep"

text \<open>\<open>strings.HasSuffix(s, suffix)\<close>.\<close>

definition strings_HasSuffix :: "string \<Rightarrow> string \<Rightarrow> bool" where
  "strings_HasSuffix s suf = suffix suf s"

text \<open>
  \<open>strings.ReplaceAll(s, old, new)\<close> for a non-empty \<open>old\<close>: the leftmost
  non-overlapping occurrences of \<open>old\<close> are replaced by \<open>new\<close>.
\<close>

function strings_ReplaceAll :: "string \<Rightarrow> string \<Rightarrow> string \<Rightarrow> string" where
  "strings_ReplaceAll s old new =
     (if old = [] then s
      else case strings_Index s old of
             None \<Rightarrow> s
           | Some m \<Rightarrow> take m s @ new @ strings_ReplaceAll (drop (m + length old) s) old new)"
  by pat_completeness auto

termination strings_ReplaceAll
proof (relation "measure (\<lambda>(s, old, new). length s)")
  show "wf (measure (\<lambda>(s, old, new). length s))" by simp
next
  fix s old new :: string and m :: nat
  assume "old \<noteq> []" and "strings_Index s old = Some m"
  then have "s \<noteq> []" by (rule strings_Index_nonempty[rotated])
  with \<open>old \<noteq> []\<close>
  show "((drop (m + length old) s, old, new), (s, old, new))
          \<in> measure (\<lambda>(s, old, new). length s)"
    by (cases s; cases old) auto
qed

declare strings_ReplaceAll.simps [simp del]

subsection \<open>\<open>strings.TrimSpace\<close>\<close>

text \<open>
  \<open>strings.TrimSpace\<close> removes leading and trailing Unicode white space, as
  \<open>unicode.IsSpace\<close> defines it, decoding the string as UTF-8. The white-space code
  points are U+0009..U+000D, U+0020, U+0085, U+00A0, U+1680, U+2000..U+200A, U+2028,
  U+2029, U+202F, U+205F and U+3000; below are their UTF-8 encodings. A rune is removed
  exactly when the string starts (or ends) with one of these byte sequences: Go's decoder
  accepts no other encoding of them, and a byte that starts no valid sequence decodes to
  U+FFFD, which is no white space.
\<close>

definition space_seqs :: "string list" where
  "space_seqs =
     [[CHR 0x09], [CHR 0x0A], [CHR 0x0B], [CHR 0x0C], [CHR 0x0D], [CHR 0x20],
      [CHR 0xC2, CHR 0x85], [CHR 0xC2, CHR 0xA0],
      [CHR 0xE1, CHR 0x9A, CHR 0x80],
      [CHR 0xE2, CHR 0x80, CHR 0x80], [CHR 0xE2, CHR 0x80, CHR 0x81],
      [CHR 0xE2, CHR 0x80, CHR 0x82], [CHR 0xE2, CHR 0x80, CHR 0x83],
      [CHR 0xE2, CHR 0x80, CHR 0x84], [CHR 0xE2, CHR 0x80, CHR 0x85],
      [CHR 0xE2, CHR 0x80, CHR 0x86], [CHR 0xE2, CHR 0x80, CHR 0x87],
      [CHR 0xE2, CHR 0x80, CHR 0x88], [CHR 0xE2, CHR 0x80, CHR 0x89],
      [CHR 0xE2, CHR 0x80, CHR 0x8A],
      [CHR 0xE2, CHR 0x80, CHR 0xA8], [CHR 0xE2, CHR 0x80, CHR 0xA9],
      [CHR 0xE2, CHR 0x80, CHR 0xAF],
      [CHR 0xE2, CHR 0x81, CHR 0x9F],
      [CHR 0xE3, CHR 0x80, CHR 0x80]]"

text \<open>The rest of \<open>s\<close> after one leading sequence out of \<open>seqs\<close>, if it starts with one.\<close>

fun strip_one :: "string list \<Rightarrow> string \<Rightarrow> string option" where
  "strip_one [] s = None"
| "strip_one (p # ps) s =
     (if p \<noteq> [] \<and> prefix p s then Some (drop (length p) s) else strip_one ps s)"

lemma strip_one_shorter: "strip_one seqs s = Some t \<Longrightarrow> length t < length s"
  by (induction seqs) (auto split: if_splits simp: prefix_def)

text \<open>\<open>strings.TrimLeftFunc(s, unicode.IsSpace)\<close>, on the encodings \<open>seqs\<close>.\<close>

function trim_left :: "string list \<Rightarrow> string \<Rightarrow> string" where
  "trim_left seqs s = (case strip_one seqs s of None \<Rightarrow> s | Some t \<Rightarrow> trim_left seqs t)"
  by pat_completeness auto
termination
  by (relation "measure (\<lambda>(seqs, s). length s)") (auto dest: strip_one_shorter)

declare trim_left.simps [simp del]

text \<open>
  Trailing white space is found by \<open>utf8.DecodeLastRuneInString\<close>, that is by the same
  encodings read from the end of the string.
\<close>

definition trim_right :: "string list \<Rightarrow> string \<Rightarrow> string" where
  "trim_right seqs s = rev (trim_left (map rev seqs) (rev s))"

definition strings_TrimSpace :: "string \<Rightarrow> string" where
  "strings_TrimSpace s = trim_right space_seqs (trim_left space_seqs s)"

section \<open>The migration loader\<close>

text \<open>The marker that line 70 of \<open>apply_migrations.go\<close> splits a file at.\<close>

definition breakpoint :: string where
  "breakpoint = ''-- statement-breakpoint''"

text \<open>
  Lines 69 to 76: split the raw text at the marker, trim every chunk and keep the chunks
  that are not empty, in order.
\<close>

definition split_statements :: "string \<Rightarrow> string list" where
  "split_statements raw =
     filter (\<lambda>stmt. stmt \<noteq> []) (map strings_TrimSpace (strings_Split raw breakpoint))"


text \<open>
  The Go comparison \<open>a < b\<close> on strings (line 89): byte by byte, a proper prefix first.
\<close>

fun string_less :: "string \<Rightarrow> string \<Rightarrow> bool" where
  "string_less [] [] = False"
| "string_less [] (y # ys) = True"
| "string_less (x # xs) [] = False"
| "string_less (x # xs) (y # ys) =
     ((of_char x :: nat) < of_char y \<or> (x = y \<and> string_less xs ys))"

subsection \<open>The hash\<close>

text \<open>
  \<open>hex.EncodeToString\<close>: two lower-case hexadecimal digits for every byte, the high
  nibble first.
\<close>

definition hextable :: string where
  "hextable = ''0123456789abcdef''"

definition hex_EncodeToString :: "8 word list \<Rightarrow> string" where
  "hex_EncodeToString src =
     concat (map (\<lambda>v. [hextable ! unat (drop_bit 4 v), hextable ! unat (v AND 0x0F)]) src)"

text \<open>
  \<open>computeHash\<close> (lines 33 to 36). \<open>sha256.Sum256\<close> is the standard library's; it is a
  parameter \<open>sum256\<close> here, of Go's type: from the bytes of the text to an array
  \<open>[32]byte\<close>, read as a function of the index. \<open>h[:]\<close> is the slice of all 32 bytes.
\<close>

type_synonym sum256 = "string \<Rightarrow> nat \<Rightarrow> 8 word"

definition computeHash :: "sum256 \<Rightarrow> string \<Rightarrow> string" where
  "computeHash sum256 s = hex_EncodeToString (map (sum256 s) [0..<32])"

subsection \<open>\<open>loadLocalMigrations\<close>\<close>

record Migration =
  Version :: string
  Name :: string
  Raw :: string
  Statements :: "string list"
  Hash :: string

text \<open>
  What the loader sees of the file system: the entries \<open>os.ReadDir\<close> returns (in
  file-name order), each with its name, whether it is a directory, and what
  \<open>os.ReadFile\<close> returns for it (\<open>None\<close> when the read fails).
\<close>

record DirEntry =
  entry_name :: string
  entry_is_dir :: bool
  entry_content :: "string option"

datatype load_error =
    ReadDirError
  | ReadFileError string
  | InvalidMigrationName string

text \<open>
  Lines 47 to 85, the loop over the directory entries. An entry that is a directory or
  does not end in \<open>.sql\<close> is skipped; then the file is read, then its name is split;
  the first error ends the loop.
\<close>

fun load_files :: "sum256 \<Rightarrow> DirEntry list \<Rightarrow> load_error + Migration list" where
  "load_files sum256 [] = Inr []"
| "load_files sum256 (f # fs) =
     (if entry_is_dir f \<or> \<not> strings_HasSuffix (entry_name f) ''.sql''
      then load_files sum256 fs
      else case entry_content f of
        None \<Rightarrow> Inl (ReadFileError (entry_name f))
      | Some raw \<Rightarrow>
          (case strings_SplitN2 (entry_name f) ''_'' of
             [version, name] \<Rightarrow>
               (case load_files sum256 fs of
                  Inl e \<Rightarrow> Inl e
                | Inr ms \<Rightarrow>
                    Inr (\<lparr>Version = version, Name = name, Raw = raw,
                          Statements = split_statements raw,
                          Hash = computeHash sum256 raw\<rparr> # ms))
           | _ \<Rightarrow> Inl (InvalidMigrationName (entry_name f))))"

text \<open>
  Lines 39 to 93. \<open>dir\<close> is the result of \<open>os.ReadDir\<close> (\<open>None\<close> when it fails).
  \<open>sort.Slice\<close> is the standard library's and is the parameter \<open>sort_Slice\<close>; it is
  called with the comparison \<open>migrations[i].Version < migrations[j].Version\<close>.
\<close>

definition version_less :: "Migration \<Rightarrow> Migration \<Rightarrow> bool" where
  "version_less a b = string_less (Version a) (Version b)"

definition loadLocalMigrations ::
  "sum256 \<Rightarrow> ((Migration \<Rightarrow> Migration \<Rightarrow> bool) \<Rightarrow> Migration list \<Rightarrow> Migration list)
     \<Rightarrow> DirEntry list option \<Rightarrow> load_error + Migration list" where
  "loadLocalMigrations sum256 sort_Slice dir =
     (case dir of
        None \<Rightarrow> Inl ReadDirError
      | Some files \<Rightarrow>
          (case load_files sum256 files of
             Inl e \<Rightarrow> Inl e
           | Inr migrations \<Rightarrow> Inr (sort_Slice version_less migrations)))"

section \<open>The ledger array encoder\<close>

text \<open>\<open>formatPostgresArray\<close> (lines 256 to 267).\<close>

definition backslash :: char where
  "backslash = CHR 0x5C"

definition dquote :: char where
  "dquote = CHR 0x22"

definition escape_element :: "string \<Rightarrow> string" where
  "escape_element v =
     [dquote]
       @ strings_ReplaceAll (strings_ReplaceAll v [backslash] [backslash, backslash])
           [dquote] [backslash, dquote]
       @ [dquote]"

definition formatPostgresArray :: "string list \<Rightarrow> string" where
  "formatPostgresArray arr =
     (if length arr = 0 then ''{}''
      else ''{'' @ strings_Join (map escape_element arr) '','' @ ''}'')"

text \<open>
  The reader of the literal is PostgreSQL (the cast \<open>$4::text[]\<close> of line 230), which is
  no part of the program. Its array input syntax, for the literals the encoder writes:
  \<open>{}\<close> is the empty array; otherwise the elements stand between \<open>{\<close> and \<open>}\<close>,
  separated by commas, each in double quotes; inside the quotes a backslash makes the
  next byte a literal byte of the element, and an unescaped double quote ends the
  element. Anything else is rejected here (\<open>None\<close>).
\<close>

fun read_quoted :: "string \<Rightarrow> string \<Rightarrow> (string \<times> string) option" where
  "read_quoted acc [] = None"
| "read_quoted acc [c] = (if c = dquote then Some (rev acc, []) else None)"
| "read_quoted acc (c # d # ds) =
     (if c = dquote then Some (rev acc, d # ds)
      else if c = backslash then read_quoted (d # acc) ds
      else read_quoted (c # acc) (d # ds))"

function read_elements :: "string \<Rightarrow> string list option" where
  "read_elements s =
     (case s of
        [] \<Rightarrow> None
      | c # cs \<Rightarrow>
          if c \<noteq> dquote then None
          else case read_quoted [] cs of
            None \<Rightarrow> None
          | Some (elem, rest) \<Rightarrow>
              if rest = ''}'' then Some [elem]
              else (case rest of
                      [] \<Rightarrow> None
                    | r # rs \<Rightarrow>
                        if r = CHR '','' then map_option ((#) elem) (read_elements rs)
                        else None))"
  by pat_completeness auto

lemma read_quoted_shorter: "read_quoted acc s = Some (e, rest) \<Longrightarrow> length rest < length s"
  by (induction acc s rule: read_quoted.induct) (auto split: if_splits)

termination read_elements
proof (relation "measure length")
  show "wf (measure length)" by simp
next
  fix s :: string and c cs x elem rest r rs
  assume "s = c # cs" and "read_quoted [] cs = Some x" and "(elem, rest) = x"
    and "rest = r # rs"
  then have "length (r # rs) < length cs" using read_quoted_shorter[of "[]" cs elem rest] by simp
  with \<open>s = c # cs\<close> show "(rs, s) \<in> measure length" by simp
qed

declare read_elements.simps [simp del]

definition parse_text_array :: "string \<Rightarrow> string list option" where
  "parse_text_array lit =
     (if lit = ''{}'' then Some []
      else case lit of
        [] \<Rightarrow> None
      | c # cs \<Rightarrow> if c = CHR ''{'' then read_elements cs else None)"

section \<open>The database and the main loop\<close>

text \<open>
  One row of \<open>supabase_migrations.schema_migrations\<close>, with the columns the program
  writes; \<open>created_at\<close> is filled in by the server. \<open>row_statements\<close> is the array
  literal the program sends.
\<close>

record LedgerRow =
  row_version :: string
  row_name :: string
  row_hash :: string
  row_statements :: string
  row_created_by :: string
  row_idempotency_key :: "string option"

text \<open>
  The database: the rows of the ledger table and everything else (\<open>'u\<close>). The behaviour
  of the server and of the connection is a \<open>Driver\<close>: what a statement does to the state
  a transaction works on (\<open>None\<close> when it fails), and when \<open>BeginTx\<close>, the \<open>INSERT\<close> and
  \<open>Commit\<close> fail for reasons of their own. For the \<open>SELECT\<close> on the ledger it says
  whether \<open>QueryContext\<close> fails, after how many rows \<open>rows.Next\<close> returns false because
  of an error (\<open>None\<close> when it returns false at the end of the rows only), and on which
  rows \<open>rows.Scan\<close> fails.
\<close>

record 'u Database =
  ledger :: "LedgerRow list"
  user :: 'u

record 'u Driver =
  query_fails :: "'u Database \<Rightarrow> bool"
  next_breaks_after :: "'u Database \<Rightarrow> nat option"
  scan_fails :: "LedgerRow \<Rightarrow> bool"
  begin_fails :: "'u Database \<Rightarrow> bool"
  exec_sql :: "string \<Rightarrow> 'u Database \<Rightarrow> 'u Database option"
  insert_fails :: "LedgerRow \<Rightarrow> 'u Database \<Rightarrow> bool"
  commit_fails :: "'u Database \<Rightarrow> bool"

text \<open>
  \<open>database/sql\<close>, for the single connection the program uses. A transaction works on a
  copy of the committed state; \<open>Rollback\<close> drops the copy, \<open>Commit\<close> makes it the
  committed state. The \<open>INSERT\<close> into the ledger fails on a row whose \<open>version\<close> is
  there already (the primary key).
\<close>

definition db_BeginTx :: "'u Driver \<Rightarrow> 'u Database \<Rightarrow> 'u Database option" where
  "db_BeginTx drv db = (if begin_fails drv db then None else Some db)"

definition tx_ExecContext :: "'u Driver \<Rightarrow> string \<Rightarrow> 'u Database \<Rightarrow> 'u Database option" where
  "tx_ExecContext drv stmt tx = exec_sql drv stmt tx"

definition tx_Insert :: "'u Driver \<Rightarrow> LedgerRow \<Rightarrow> 'u Database \<Rightarrow> 'u Database option" where
  "tx_Insert drv row tx =
     (if insert_fails drv row tx \<or> row_version row \<in> set (map row_version (ledger tx))
      then None
      else Some (tx\<lparr>ledger := ledger tx @ [row]\<rparr>))"

definition tx_Rollback :: "'u Database \<Rightarrow> 'u Database \<Rightarrow> 'u Database" where
  "tx_Rollback db tx = db"

definition tx_Commit :: "'u Driver \<Rightarrow> 'u Database \<Rightarrow> 'u Database \<Rightarrow> 'u Database option" where
  "tx_Commit drv db tx = (if commit_fails drv tx then None else Some tx)"

text \<open>What the program sends to the database and prints, in order.\<close>

datatype Event =
    Begin
  | Exec string
  | Insert LedgerRow
  | Rollback
  | Commit
  | PrintAlreadyApplied string string
  | PrintApplying string string
  | PrintStatementError
  | PrintSuccess string

text \<open>The panics of \<open>main\<close> from line 171 on.\<close>

datatype run_error =
    QueryError
  | ScanError
  | BeginError
  | StatementError string
  | InsertError
  | CommitError
  | LoadError load_error

text \<open>
  Lines 215 to 221: the statements in order, each in the transaction; the first failure
  ends the loop.
\<close>

fun exec_statements ::
  "'u Driver \<Rightarrow> string list \<Rightarrow> 'u Database \<Rightarrow> (string + 'u Database) \<times> Event list" where
  "exec_statements drv [] tx = (Inr tx, [])"
| "exec_statements drv (stmt # rest) tx =
     (case tx_ExecContext drv stmt tx of
        None \<Rightarrow> (Inl stmt, [Exec stmt])
      | Some tx' \<Rightarrow>
          (case exec_statements drv rest tx' of (r, evs) \<Rightarrow> (r, Exec stmt # evs)))"

text \<open>Lines 224 to 237: the row of the \<open>INSERT\<close>.\<close>

definition ledger_row :: "Migration \<Rightarrow> LedgerRow" where
  "ledger_row m =
     \<lparr>row_version = Version m, row_name = Name m, row_hash = Hash m,
      row_statements = formatPostgresArray (Statements m),
      row_created_by = ''supabase-direct-migrate'',
      row_idempotency_key = None\<rparr>"

text \<open>
  Lines 205 to 250, one pending migration: the result is the panic (if any), the
  committed state afterwards and the events.
\<close>

definition apply_migration ::
  "'u Driver \<Rightarrow> Migration \<Rightarrow> 'u Database \<Rightarrow> run_error option \<times> 'u Database \<times> Event list" where
  "apply_migration drv m db =
     (case db_BeginTx drv db of
        None \<Rightarrow> (Some BeginError, db, [PrintApplying (Version m) (Name m), Begin])
      | Some tx \<Rightarrow>
          (case exec_statements drv (Statements m) tx of
             (Inl stmt, evs) \<Rightarrow>
               (Some (StatementError stmt), tx_Rollback db tx,
                [PrintApplying (Version m) (Name m), Begin] @ evs
                  @ [PrintStatementError, Rollback])
           | (Inr tx', evs) \<Rightarrow>
               (case tx_Insert drv (ledger_row m) tx' of
                  None \<Rightarrow>
                    (Some InsertError, tx_Rollback db tx',
                     [PrintApplying (Version m) (Name m), Begin] @ evs
                       @ [Insert (ledger_row m), Rollback])
                | Some tx'' \<Rightarrow>
                    (case tx_Commit drv db tx'' of
                       None \<Rightarrow>
                         (Some CommitError, db,
                          [PrintApplying (Version m) (Name m), Begin] @ evs
                            @ [Insert (ledger_row m), Commit])
                     | Some db' \<Rightarrow>
                         (None, db',
                          [PrintApplying (Version m) (Name m), Begin] @ evs
                            @ [Insert (ledger_row m), Commit, PrintSuccess (Version m)])))))"

text \<open>
  Lines 198 to 251, the loop over the local migrations; \<open>applied\<close> is the map read from
  the ledger before the loop.
\<close>

fun apply_all ::
  "'u Driver \<Rightarrow> (string \<rightharpoonup> string) \<Rightarrow> Migration list \<Rightarrow> 'u Database
     \<Rightarrow> run_error option \<times> 'u Database \<times> Event list" where
  "apply_all drv applied [] db = (None, db, [])"
| "apply_all drv applied (m # ms) db =
     (if applied (Version m) \<noteq> None
      then (case apply_all drv applied ms db of
              (r, db', evs) \<Rightarrow> (r, db', PrintAlreadyApplied (Version m) (Name m) # evs))
      else (case apply_migration drv m db of
              (Some e, db', evs) \<Rightarrow> (Some e, db', evs)
            | (None, db', evs) \<Rightarrow>
                (case apply_all drv applied ms db' of
                   (r, db'', evs') \<Rightarrow> (r, db'', evs @ evs'))))"

text \<open>
  The rows that the loop of line 180 sees: \<open>rows.Next\<close> returns false at the end of the
  rows and also when the iteration breaks off with an error. The program never calls
  \<open>rows.Err\<close>, so that it cannot tell the one from the other: after an error it goes on
  with the rows read so far. The rows come in the order of the ledger.
\<close>

definition rows_Next :: "'u Driver \<Rightarrow> 'u Database \<Rightarrow> LedgerRow list" where
  "rows_Next drv db =
     (case next_breaks_after drv db of
        None \<Rightarrow> ledger db
      | Some n \<Rightarrow> take n (ledger db))"

text \<open>Lines 180 to 187: every row is scanned and entered into the map; a failing scan panics.\<close>

fun scan_rows ::
  "'u Driver \<Rightarrow> LedgerRow list \<Rightarrow> (string \<rightharpoonup> string) \<Rightarrow> run_error + (string \<rightharpoonup> string)" where
  "scan_rows drv [] applied = Inr applied"
| "scan_rows drv (r # rs) applied =
     (if scan_fails drv r then Inl ScanError
      else scan_rows drv rs (applied(row_version r \<mapsto> row_hash r)))"

text \<open>
  Lines 172 to 187: the map from the versions read from the ledger to their hashes, or
  the panic of a failing query or scan.
\<close>

definition fetch_applied :: "'u Driver \<Rightarrow> 'u Database \<Rightarrow> run_error + (string \<rightharpoonup> string)" where
  "fetch_applied drv db =
     (if query_fails drv db then Inl QueryError
      else scan_rows drv (rows_Next drv db) Map.empty)"

text \<open>
  \<open>main\<close> from line 171 on: read the ledger, load the local migrations, apply the pending
  ones.
\<close>

definition run_migrations ::
  "'u Driver \<Rightarrow> sum256 \<Rightarrow> ((Migration \<Rightarrow> Migration \<Rightarrow> bool) \<Rightarrow> Migration list \<Rightarrow> Migration list)
     \<Rightarrow> DirEntry list option \<Rightarrow> 'u Database \<Rightarrow> run_error option \<times> 'u Database \<times> Event list" where
  "run_migrations drv sum256 sort_Slice dir db =
     (case fetch_applied drv db of
        Inl e \<Rightarrow> (Some e, db, [])
      | Inr applied \<Rightarrow>
          (case loadLocalMigrations sum256 sort_Slice dir of
             Inl e \<Rightarrow> (Some (LoadError e), db, [])
           | Inr localMigrations \<Rightarrow> apply_all drv applied localMigrations db))"

section \<open>Auxiliary definitions\<close>

text \<open>No proper non-empty suffix of \<open>sep\<close> is also a prefix of it.\<close>

definition unbordered :: "string \<Rightarrow> bool" where
  "unbordered sep = list_all (\<lambda>k. drop k sep \<noteq> take (length sep - k) sep) [1..<length sep]"

text \<open>
  The specification's reading of the statement delimiter, for comparison with
  \<open>split_statements\<close>: the text is cut into lines, a line whose trimmed content is the
  marker ends a chunk, and the chunks are the lines in between.
\<close>

fun spec_groups :: "string list \<Rightarrow> string list \<Rightarrow> string list list" where
  "spec_groups acc [] = [rev acc]"
| "spec_groups acc (l # ls) =
     (if strings_TrimSpace l = breakpoint then rev acc # spec_groups [] ls
      else spec_groups (l # acc) ls)"

definition spec_split_statements :: "string \<Rightarrow> string list" where
  "spec_split_statements raw =
     filter (\<lambda>stmt. stmt \<noteq> [])
       (map (\<lambda>g. strings_TrimSpace (strings_Join g [CHR 0x0A]))
          (spec_groups [] (strings_Split raw [CHR 0x0A])))"

text \<open>The entries the loop of the loader does not skip (line 48).\<close>

definition is_migration_file :: "DirEntry \<Rightarrow> bool" where
  "is_migration_file f = (\<not> entry_is_dir f \<and> strings_HasSuffix (entry_name f) ''.sql'')"

text \<open>What the two replacements of \<open>formatPostgresArray\<close> do to one byte.\<close>

definition escape_char :: "char \<Rightarrow> string" where
  "escape_char x =
     (if x = backslash then [backslash, backslash]
      else if x = dquote then [backslash, dquote]
      else [x])"

text \<open>
  The reconciler of the specification: the local migrations whose version is not in the
  applied set, in their order.
\<close>

definition spec_pending :: "(string \<rightharpoonup> string) \<Rightarrow> Migration list \<Rightarrow> Migration list" where
  "spec_pending applied ms = filter (\<lambda>m. applied (Version m) = None) ms"

text \<open>Reading the events: the skipped, the attempted and the applied versions.\<close>

fun is_skip :: "Event \<Rightarrow> bool" where
  "is_skip (PrintAlreadyApplied v n) = True"
| "is_skip e = False"

fun attempted :: "Event list \<Rightarrow> string list" where
  "attempted [] = []"
| "attempted (PrintApplying v n # evs) = v # attempted evs"
| "attempted (e # evs) = attempted evs"

fun succeeded :: "Event list \<Rightarrow> string list" where
  "succeeded [] = []"
| "succeeded (PrintSuccess v # evs) = v # succeeded evs"
| "succeeded (e # evs) = succeeded evs"

text \<open>What a list of statements does to a state, one after the other.\<close>

fun sql_effect :: "'u Driver \<Rightarrow> string list \<Rightarrow> 'u Database \<Rightarrow> 'u Database option" where
  "sql_effect drv [] tx = Some tx"
| "sql_effect drv (stmt # rest) tx =
     (case exec_sql drv stmt tx of None \<Rightarrow> None | Some tx' \<Rightarrow> sql_effect drv rest tx')"

text \<open>
  A concrete server for the examples: the state besides the ledger is the list of the
  statements executed so far; the statement \<open>bad\<close> fails, nothing else does, and the
  ledger is read to its end.
\<close>

definition ex_driver :: "string list Driver" where
  "ex_driver =
     \<lparr>query_fails = (\<lambda>db. False),
      next_breaks_after = (\<lambda>db. None),
      scan_fails = (\<lambda>row. False),
      begin_fails = (\<lambda>db. False),
      exec_sql = (\<lambda>stmt db. if stmt = ''bad'' then None else Some (db\<lparr>user := user db @ [stmt]\<rparr>)),
      insert_fails = (\<lambda>row db. False),
      commit_fails = (\<lambda>db. False)\<rparr>"

definition ex_migration :: "string \<Rightarrow> string list \<Rightarrow> Migration" where
  "ex_migration v stmts =
     \<lparr>Version = v, Name = ''m.sql'', Raw = '''', Statements = stmts, Hash = ''h''\<rparr>"

definition ex_row :: "string \<Rightarrow> string \<Rightarrow> LedgerRow" where
  "ex_row v stmts =
     \<lparr>row_version = v, row_name = ''m.sql'', row_hash = ''h'', row_statements = stmts,
      row_created_by = ''supabase-direct-migrate'', row_idempotency_key = None\<rparr>"

section \<open>\<open>sort.Slice\<close>\<close>


text \<open>
  \<open>sort.Slice\<close> as package \<open>sort\<close> implements it since Go 1.19
  (\<open>pdqsort_func\<close>), for the slices that stay within insertion sort, the choice of
  the pivot among three, the check for an ordered slice and the partitioning. Where the
  library goes on to \<open>heapSort\<close>, \<open>breakPatterns\<close>, \<open>partitionEqual\<close> or the
  code for 50 elements and more, the model says nothing (\<open>None\<close>). Indices are Go's
  \<open>int\<close>; the library keeps them within the slice.
\<close>

































text \<open>
  The insertion of \<open>insertionSort\<close> read on lists: \<open>x\<close> moves towards the front past
  every element it is less than. The list is the part before \<open>x\<close>, nearest element
  first.
\<close>

fun sift :: "('a \<Rightarrow> 'a \<Rightarrow> bool) \<Rightarrow> 'a \<Rightarrow> 'a list \<Rightarrow> 'a list" where
  "sift lt x [] = [x]"
| "sift lt x (y # ys) = (if lt x y then y # sift lt x ys else x # y # ys)"


section \<open>Lemmas on splitting and trimming\<close>

lemma strings_Index_Some_iff:
  "sep \<noteq> [] \<Longrightarrow> (strings_Index s sep \<noteq> None) = (\<exists>u v. s = u @ sep @ v)"
proof (induction s)
  case Nil
  then show ?case by simp
next
  case (Cons c cs)
  show ?case
  proof (cases "prefix sep (c # cs)")
    case True
    then obtain v where "c # cs = sep @ v" by (auto simp: prefix_def)
    then have "c # cs = [] @ sep @ v" by simp
    with True show ?thesis by (metis strings_Index.simps(2) option.distinct(1))
  next
    case False
    have "(\<exists>u v. c # cs = u @ sep @ v) = (\<exists>u v. cs = u @ sep @ v)"
    proof
      assume "\<exists>u v. c # cs = u @ sep @ v"
      then obtain u v where uv: "c # cs = u @ sep @ v" by blast
      show "\<exists>u v. cs = u @ sep @ v"
      proof (cases u)
        case Nil
        with uv False show ?thesis by (auto simp: prefix_def)
      next
        case (Cons x u')
        with uv have "cs = u' @ sep @ v" by simp
        then show ?thesis by blast
      qed
    next
      assume "\<exists>u v. cs = u @ sep @ v"
      then obtain u v where "cs = u @ sep @ v" by blast
      then have "c # cs = (c # u) @ sep @ v" by simp
      then show "\<exists>u v. c # cs = u @ sep @ v" by blast
    qed
    with False Cons show ?thesis by simp
  qed
qed

lemma strings_Index_None_iff:
  "sep \<noteq> [] \<Longrightarrow> (strings_Index s sep = None) = (\<not> (\<exists>u v. s = u @ sep @ v))"
  using strings_Index_Some_iff[of sep s] by blast

lemma strings_Index_None_sub:
  assumes "sep \<noteq> []" and "strings_Index (u @ s @ v) sep = None"
  shows "strings_Index s sep = None"
proof (rule ccontr)
  assume "strings_Index s sep \<noteq> None"
  then obtain a b where "s = a @ sep @ b"
    using strings_Index_Some_iff[OF assms(1)] by blast
  then have "u @ s @ v = (u @ a) @ sep @ (b @ v)" by simp
  then have "strings_Index (u @ s @ v) sep \<noteq> None"
    using strings_Index_Some_iff[OF assms(1)] by blast
  with assms(2) show False by simp
qed

lemma strings_Index_split:
  "strings_Index s sep = Some m \<Longrightarrow>
     s = take m s @ sep @ drop (m + length sep) s \<and> m + length sep \<le> length s"
proof (induction s arbitrary: m)
  case Nil
  then show ?case by (simp split: if_splits)
next
  case (Cons c cs)
  show ?case
  proof (cases "prefix sep (c # cs)")
    case True
    with Cons.prems have "m = 0" by simp
    moreover from True obtain zs where zs: "c # cs = sep @ zs" by (auto simp: prefix_def)
    moreover from zs have "length (c # cs) = length sep + length zs"
      by (metis length_append)
    ultimately show ?thesis by simp
  next
    case False
    with Cons.prems obtain m' where m': "strings_Index cs sep = Some m'" "m = Suc m'"
      by auto
    from Cons.IH[OF m'(1)] m'(2) show ?thesis by simp
  qed
qed

lemma strings_Index_take:
  "strings_Index s sep = Some m \<Longrightarrow> sep \<noteq> [] \<Longrightarrow> strings_Index (take m s) sep = None"
proof (induction s arbitrary: m)
  case Nil
  then show ?case by simp
next
  case (Cons c cs)
  show ?case
  proof (cases "prefix sep (c # cs)")
    case True
    with Cons.prems show ?thesis by simp
  next
    case False
    with Cons.prems obtain m' where m': "strings_Index cs sep = Some m'" "m = Suc m'"
      by auto
    have "\<not> prefix sep (c # take m' cs)"
    proof
      assume "prefix sep (c # take m' cs)"
      moreover have "prefix (c # take m' cs) (c # cs)" by (simp add: take_is_prefix)
      ultimately have "prefix sep (c # cs)" by (rule prefix_order.trans)
      with False show False by simp
    qed
    with Cons.IH[OF m'(1) Cons.prems(2)] m'(2) show ?thesis by simp
  qed
qed

lemma strings_Split_None:
  "sep \<noteq> [] \<Longrightarrow> strings_Index s sep = None \<Longrightarrow> strings_Split s sep = [s]"
  by (simp add: strings_Split.simps)

lemma strings_Split_Some:
  "sep \<noteq> [] \<Longrightarrow> strings_Index s sep = Some m \<Longrightarrow>
     strings_Split s sep = take m s # strings_Split (drop (m + length sep) s) sep"
  by (subst strings_Split.simps) simp

lemma strings_Split_nonempty: "sep \<noteq> [] \<Longrightarrow> strings_Split s sep \<noteq> []"
  by (subst strings_Split.simps) (simp split: option.splits)

lemma strings_Join_Cons:
  "bs \<noteq> [] \<Longrightarrow> strings_Join (a # bs) sep = a @ sep @ strings_Join bs sep"
  by (cases bs) simp_all

lemma strings_Join_Split:
  "sep \<noteq> [] \<Longrightarrow> strings_Join (strings_Split s sep) sep = s"
proof (induction s sep rule: strings_Split.induct)
  case (1 s sep)
  show ?case
  proof (cases "strings_Index s sep")
    case None
    with "1.prems" show ?thesis by (simp add: strings_Split_None)
  next
    case (Some m)
    from "1.IH"[OF "1.prems" Some "1.prems"]
    have ih: "strings_Join (strings_Split (drop (m + length sep) s) sep) sep
                = drop (m + length sep) s" .
    from strings_Index_split[OF Some]
    have s: "s = take m s @ sep @ drop (m + length sep) s" by simp
    have "strings_Join (strings_Split s sep) sep
            = take m s @ sep @ drop (m + length sep) s"
      by (simp add: strings_Split_Some[OF "1.prems" Some]
                    strings_Join_Cons[OF strings_Split_nonempty[OF "1.prems"]] ih)
    with s show ?thesis by simp
  qed
qed

lemma strings_Split_chunks_free:
  "sep \<noteq> [] \<Longrightarrow> c \<in> set (strings_Split s sep) \<Longrightarrow> strings_Index c sep = None"
proof (induction s sep rule: strings_Split.induct)
  case (1 s sep)
  show ?case
  proof (cases "strings_Index s sep")
    case None
    with "1.prems" show ?thesis by (simp add: strings_Split_None)
  next
    case (Some m)
    from "1.prems" have "c = take m s \<or> c \<in> set (strings_Split (drop (m + length sep) s) sep)"
      by (simp add: strings_Split_Some[OF "1.prems"(1) Some])
    then show ?thesis
    proof
      assume "c = take m s"
      with strings_Index_take[OF Some "1.prems"(1)] show ?thesis by simp
    next
      assume "c \<in> set (strings_Split (drop (m + length sep) s) sep)"
      with "1.IH"[OF "1.prems"(1) Some "1.prems"(1)] show ?thesis by simp
    qed
  qed
qed

lemma unbordered_breakpoint: "unbordered breakpoint"
  by code_simp

lemma breakpoint_nonempty: "breakpoint \<noteq> []"
  by (simp add: breakpoint_def)

lemma prefix_straddle:
  assumes "prefix sep (a @ sep @ t)" and "a \<noteq> []" and "length a < length sep"
  shows "\<not> unbordered sep"
proof -
  from assms(1) obtain r where r: "a @ sep @ t = sep @ r" by (auto simp: prefix_def)
  have "drop (length a) (a @ sep @ t) = drop (length a) (sep @ r)" using r by simp
  with assms(3) have "sep @ t = drop (length a) sep @ r" by simp
  then have "take (length sep - length a) (sep @ t) = drop (length a) sep" by simp
  then have "drop (length a) sep = take (length sep - length a) sep" by simp
  moreover from assms(2,3) have "length a \<in> set [1..<length sep]"
    by (cases a) auto
  ultimately show ?thesis
    unfolding unbordered_def list_all_iff by blast
qed

lemma strings_Index_append_sep:
  assumes "sep \<noteq> []" and "unbordered sep"
  shows "strings_Index a sep = None \<Longrightarrow> strings_Index (a @ sep @ t) sep = Some (length a)"
proof (induction a)
  case Nil
  from assms(1) obtain x xs where "sep = x # xs" by (cases sep) auto
  then show ?case by simp
next
  case (Cons c cs)
  from Cons.prems have np: "\<not> prefix sep (c # cs)" and n: "strings_Index cs sep = None"
    by (auto split: if_splits)
  have "\<not> prefix sep ((c # cs) @ sep @ t)"
  proof
    assume p: "prefix sep ((c # cs) @ sep @ t)"
    show False
    proof (cases "length (c # cs) < length sep")
      case True
      from prefix_straddle[OF p _ True] assms(2) show False by simp
    next
      case False
      with p have "prefix sep (c # cs)"
        by (metis prefix_length_prefix append_prefixD prefix_order.refl linorder_not_less prefixI)
      with np show False by simp
    qed
  qed
  with Cons.IH[OF n] show ?case by simp
qed

lemma strings_Split_Join:
  assumes "sep \<noteq> []" and "unbordered sep"
  shows "cs \<noteq> [] \<Longrightarrow> \<forall>c\<in>set cs. strings_Index c sep = None \<Longrightarrow>
           strings_Split (strings_Join cs sep) sep = cs"
proof (induction cs)
  case Nil
  then show ?case by simp
next
  case (Cons a bs)
  show ?case
  proof (cases bs)
    case Nil
    with Cons.prems assms(1) show ?thesis by (simp add: strings_Split_None)
  next
    case (Cons b bs')
    then have ne: "bs \<noteq> []" by simp
    from Cons.prems have a: "strings_Index a sep = None"
      and rest: "\<forall>c\<in>set bs. strings_Index c sep = None" by auto
    have idx: "strings_Index (a @ sep @ strings_Join bs sep) sep = Some (length a)"
      by (rule strings_Index_append_sep[OF assms a])
    have "strings_Split (a @ sep @ strings_Join bs sep) sep
            = a # strings_Split (strings_Join bs sep) sep"
      by (simp add: strings_Split_Some[OF assms(1) idx])
    with Cons.IH[OF ne rest] show ?thesis by (simp add: strings_Join_Cons[OF ne])
  qed
qed

subsection \<open>Trimming\<close>

lemma strip_one_Some:
  "strip_one seqs s = Some t \<Longrightarrow> \<exists>p\<in>set seqs. p \<noteq> [] \<and> s = p @ t"
  by (induction seqs) (auto split: if_splits simp: prefix_def)

lemma strip_one_None_prefix:
  "strip_one seqs s = None \<Longrightarrow> prefix t s \<Longrightarrow> strip_one seqs t = None"
proof (induction seqs)
  case Nil
  then show ?case by simp
next
  case (Cons p ps)
  from Cons.prems(1) have np: "\<not> (p \<noteq> [] \<and> prefix p s)" and r: "strip_one ps s = None"
    by (auto split: if_splits)
  have "\<not> (p \<noteq> [] \<and> prefix p t)"
  proof
    assume "p \<noteq> [] \<and> prefix p t"
    with Cons.prems(2) have "p \<noteq> [] \<and> prefix p s" by (meson prefix_order.trans)
    with np show False by simp
  qed
  with Cons.IH[OF r Cons.prems(2)] show ?case by simp
qed

lemma trim_left_None: "strip_one seqs s = None \<Longrightarrow> trim_left seqs s = s"
  by (subst trim_left.simps) simp

lemma trim_left_Some: "strip_one seqs s = Some t \<Longrightarrow> trim_left seqs s = trim_left seqs t"
  by (subst trim_left.simps) simp

lemma trim_left_fixed: "strip_one seqs (trim_left seqs s) = None"
proof (induction seqs s rule: trim_left.induct)
  case (1 seqs s)
  show ?case
  proof (cases "strip_one seqs s")
    case None
    then show ?thesis by (simp add: trim_left_None)
  next
    case (Some t)
    with "1.IH"[OF Some] show ?thesis by (simp add: trim_left_Some)
  qed
qed

lemma trim_left_suffix: "suffix (trim_left seqs s) s"
proof (induction seqs s rule: trim_left.induct)
  case (1 seqs s)
  show ?case
  proof (cases "strip_one seqs s")
    case None
    then show ?thesis by (simp add: trim_left_None)
  next
    case (Some t)
    from strip_one_Some[OF Some] have "suffix t s" by (auto simp: suffix_def)
    with "1.IH"[OF Some] have "suffix (trim_left seqs t) s"
      by (meson suffix_order.trans)
    then show ?thesis by (simp add: trim_left_Some[OF Some])
  qed
qed

lemma trim_left_chars:
  "set s \<subseteq> set (trim_left seqs s) \<union> \<Union> (set ` set seqs)"
proof (induction seqs s rule: trim_left.induct)
  case (1 seqs s)
  show ?case
  proof (cases "strip_one seqs s")
    case None
    then show ?thesis by (simp add: trim_left_None)
  next
    case (Some t)
    from strip_one_Some[OF Some] obtain p where "p \<in> set seqs" "s = p @ t" by blast
    then have "set s \<subseteq> set t \<union> \<Union> (set ` set seqs)" by auto
    with "1.IH"[OF Some] show ?thesis
      by (simp add: trim_left_Some[OF Some]) blast
  qed
qed

lemma trim_right_prefix: "prefix (trim_right seqs s) s"
proof -
  have "suffix (trim_left (map rev seqs) (rev s)) (rev s)" by (rule trim_left_suffix)
  then show ?thesis
    unfolding trim_right_def by (metis suffix_to_prefix rev_rev_ident)
qed

lemma trim_right_chars:
  "set s \<subseteq> set (trim_right seqs s) \<union> \<Union> (set ` set seqs)"
proof -
  have "set (rev s) \<subseteq> set (trim_left (map rev seqs) (rev s)) \<union> \<Union> (set ` set (map rev seqs))"
    by (rule trim_left_chars)
  moreover have "\<Union> (set ` set (map rev seqs)) = \<Union> (set ` set seqs)" by auto
  ultimately show ?thesis unfolding trim_right_def by simp
qed

lemma strings_TrimSpace_idem [simp]:
  "strings_TrimSpace (strings_TrimSpace s) = strings_TrimSpace s"
proof -
  define a where "a = trim_left space_seqs s"
  define b where "b = trim_right space_seqs a"
  have b: "strings_TrimSpace s = b" by (simp add: strings_TrimSpace_def a_def b_def)
  have "strip_one space_seqs a = None" unfolding a_def by (rule trim_left_fixed)
  moreover have "prefix b a" unfolding b_def by (rule trim_right_prefix)
  ultimately have "strip_one space_seqs b = None" by (rule strip_one_None_prefix)
  then have l: "trim_left space_seqs b = b" by (rule trim_left_None)
  have "strip_one (map rev space_seqs) (rev b) = None"
    unfolding b_def trim_right_def by (simp add: trim_left_fixed)
  then have "trim_left (map rev space_seqs) (rev b) = rev b" by (rule trim_left_None)
  then have r: "trim_right space_seqs b = b" by (simp add: trim_right_def)
  show ?thesis unfolding b by (simp add: strings_TrimSpace_def l r)
qed

lemma strings_TrimSpace_sub: "\<exists>u v. s = u @ strings_TrimSpace s @ v"
proof -
  define a where "a = trim_left space_seqs s"
  obtain u where u: "s = u @ a"
    using trim_left_suffix[of space_seqs s] by (auto simp: suffix_def a_def)
  obtain v where v: "a = trim_right space_seqs a @ v"
    using trim_right_prefix[of space_seqs a] by (auto simp: prefix_def)
  have "s = u @ strings_TrimSpace s @ v"
    unfolding strings_TrimSpace_def a_def[symmetric] using u v by simp
  then show ?thesis by blast
qed

lemma strings_TrimSpace_free:
  assumes "sep \<noteq> []" and "strings_Index s sep = None"
  shows "strings_Index (strings_TrimSpace s) sep = None"
proof -
  obtain u v where "s = u @ strings_TrimSpace s @ v"
    using strings_TrimSpace_sub by blast
  with assms(2) have "strings_Index (u @ strings_TrimSpace s @ v) sep = None" by simp
  then show ?thesis by (rule strings_Index_None_sub[OF assms(1)])
qed

lemma strings_TrimSpace_Nil [simp]: "strings_TrimSpace [] = []"
  by code_simp

lemma strings_TrimSpace_empty_chars:
  assumes "strings_TrimSpace s = []"
  shows "set s \<subseteq> \<Union> (set ` set space_seqs)"
proof -
  have "set (trim_left space_seqs s)
          \<subseteq> set (trim_right space_seqs (trim_left space_seqs s)) \<union> \<Union> (set ` set space_seqs)"
    by (rule trim_right_chars)
  with assms have "set (trim_left space_seqs s) \<subseteq> \<Union> (set ` set space_seqs)"
    by (simp add: strings_TrimSpace_def)
  with trim_left_chars[of s space_seqs] show ?thesis by blast
qed

lemma breakpoint_not_space: "CHR ''-'' \<notin> \<Union> (set ` set space_seqs)"
  by (simp add: space_seqs_def)

lemma strings_TrimSpace_empty_free:
  assumes "strings_TrimSpace s = []"
  shows "strings_Index s breakpoint = None"
proof (rule ccontr)
  assume "strings_Index s breakpoint \<noteq> None"
  then obtain u v where "s = u @ breakpoint @ v"
    using strings_Index_Some_iff[OF breakpoint_nonempty] by blast
  then have "CHR ''-'' \<in> set s" by (simp add: breakpoint_def)
  with strings_TrimSpace_empty_chars[OF assms] breakpoint_not_space show False by blast
qed

subsection \<open>The statements of a file\<close>

lemma split_statements_props:
  assumes "stmt \<in> set (split_statements raw)"
  shows "stmt \<noteq> []" and "strings_TrimSpace stmt = stmt"
    and "strings_Index stmt breakpoint = None"
proof -
  from assms obtain c where c: "c \<in> set (strings_Split raw breakpoint)"
    and s: "stmt = strings_TrimSpace c" and ne: "stmt \<noteq> []"
    by (auto simp: split_statements_def)
  show "stmt \<noteq> []" by (rule ne)
  show "strings_TrimSpace stmt = stmt" by (simp add: s)
  from strings_Split_chunks_free[OF breakpoint_nonempty c]
  show "strings_Index stmt breakpoint = None"
    unfolding s by (rule strings_TrimSpace_free[OF breakpoint_nonempty])
qed

lemma split_statements_Join:
  assumes "\<forall>c\<in>set cs. strings_Index c breakpoint = None"
  shows "split_statements (strings_Join cs breakpoint)
           = filter (\<lambda>stmt. stmt \<noteq> []) (map strings_TrimSpace cs)"
proof (cases cs)
  case Nil
  then show ?thesis
    by (simp add: split_statements_def strings_Split_None[OF breakpoint_nonempty]
                  breakpoint_nonempty)
next
  case (Cons a bs)
  then have "cs \<noteq> []" by simp
  from strings_Split_Join[OF breakpoint_nonempty unbordered_breakpoint this assms]
  show ?thesis by (simp add: split_statements_def)
qed


section \<open>Lemmas on the loader\<close>

lemma strings_Index_char_None:
  "c \<notin> set s \<Longrightarrow> strings_Index s [c] = None"
  by (induction s) auto

lemma strings_Index_char_Some:
  "c \<notin> set a \<Longrightarrow> strings_Index (a @ c # t) [c] = Some (length a)"
  by (induction a) auto

lemma strings_Index_char_None_iff:
  "(strings_Index s [c] = None) = (c \<notin> set s)"
proof
  assume n: "strings_Index s [c] = None"
  show "c \<notin> set s"
  proof
    assume "c \<in> set s"
    then obtain u v where "s = u @ [c] @ v" by (auto simp: in_set_conv_decomp)
    with strings_Index_Some_iff[of "[c]" s] n show False by blast
  qed
qed (rule strings_Index_char_None)

lemma strings_SplitN2_first:
  "c \<notin> set a \<Longrightarrow> strings_SplitN2 (a @ c # t) [c] = [a, t]"
  by (simp add: strings_SplitN2_def strings_Index_char_Some)

lemma strings_SplitN2_none:
  "c \<notin> set s \<Longrightarrow> strings_SplitN2 s [c] = [s]"
  by (simp add: strings_SplitN2_def strings_Index_char_None)

lemma strings_SplitN2_cases:
  "(\<exists>a b. strings_SplitN2 s [c] = [a, b] \<and> c \<in> set s) \<or> (strings_SplitN2 s [c] = [s] \<and> c \<notin> set s)"
proof (cases "c \<in> set s")
  case True
  then obtain a t where "s = a @ c # t" "c \<notin> set a" by (meson split_list_first)
  with True show ?thesis by (auto simp: strings_SplitN2_first)
next
  case False
  then show ?thesis by (simp add: strings_SplitN2_none)
qed

lemma load_files_invalid_name:
  "load_files sum256 fs = Inl (InvalidMigrationName g) \<Longrightarrow> CHR ''_'' \<notin> set g"
proof (induction fs)
  case Nil
  then show ?case by simp
next
  case (Cons f fs)
  from strings_SplitN2_cases[of "entry_name f" "CHR ''_''"]
  show ?case
  proof
    assume "\<exists>a b. strings_SplitN2 (entry_name f) ''_'' = [a, b] \<and> CHR ''_'' \<in> set (entry_name f)"
    then obtain a b where ab: "strings_SplitN2 (entry_name f) ''_'' = [a, b]" by blast
    with Cons show ?thesis
      by (auto split: if_splits option.splits sum.splits)
  next
    assume n: "strings_SplitN2 (entry_name f) ''_'' = [entry_name f] \<and> CHR ''_'' \<notin> set (entry_name f)"
    with Cons show ?thesis
      by (auto split: if_splits option.splits sum.splits)
  qed
qed

lemma takeWhile_first: "c \<notin> set a \<Longrightarrow> takeWhile (\<lambda>x. x \<noteq> c) (a @ c # t) = a"
  by (induction a) auto

lemma dropWhile_first: "c \<notin> set a \<Longrightarrow> dropWhile (\<lambda>x. x \<noteq> c) (a @ c # t) = c # t"
  by (induction a) auto

lemma load_files_head:
  assumes "\<not> entry_is_dir f" and "strings_HasSuffix (entry_name f) ''.sql''"
    and "entry_content f = Some raw"
  shows "CHR ''_'' \<notin> set (entry_name f) \<Longrightarrow>
           load_files sum256 (f # fs) = Inl (InvalidMigrationName (entry_name f))"
    and "CHR ''_'' \<in> set (entry_name f) \<Longrightarrow>
           load_files sum256 (f # fs) =
             (case load_files sum256 fs of
                Inl e \<Rightarrow> Inl e
              | Inr ms \<Rightarrow>
                  Inr (\<lparr>Version = takeWhile (\<lambda>c. c \<noteq> CHR ''_'') (entry_name f),
                        Name = tl (dropWhile (\<lambda>c. c \<noteq> CHR ''_'') (entry_name f)),
                        Raw = raw, Statements = split_statements raw,
                        Hash = computeHash sum256 raw\<rparr> # ms))"
proof -
  assume "CHR ''_'' \<notin> set (entry_name f)"
  then show "load_files sum256 (f # fs) = Inl (InvalidMigrationName (entry_name f))"
    using assms by (simp add: strings_SplitN2_none)
next
  assume "CHR ''_'' \<in> set (entry_name f)"
  then obtain a t where at: "entry_name f = a @ CHR ''_'' # t" "CHR ''_'' \<notin> set a"
    by (meson split_list_first)
  then have tw: "takeWhile (\<lambda>c. c \<noteq> CHR ''_'') (entry_name f) = a"
    and dw: "dropWhile (\<lambda>c. c \<noteq> CHR ''_'') (entry_name f) = CHR ''_'' # t"
    by (simp_all add: takeWhile_first dropWhile_first)
  have "strings_SplitN2 (entry_name f) ''_'' = [a, t]"
    using strings_SplitN2_first[OF at(2), of t] at(1) by simp
  then show "load_files sum256 (f # fs) =
             (case load_files sum256 fs of
                Inl e \<Rightarrow> Inl e
              | Inr ms \<Rightarrow>
                  Inr (\<lparr>Version = takeWhile (\<lambda>c. c \<noteq> CHR ''_'') (entry_name f),
                        Name = tl (dropWhile (\<lambda>c. c \<noteq> CHR ''_'') (entry_name f)),
                        Raw = raw, Statements = split_statements raw,
                        Hash = computeHash sum256 raw\<rparr> # ms))"
    using assms by (simp add: tw dw split: sum.split)
qed

lemma load_files_invalid_iff:
  assumes "\<forall>f\<in>set files. entry_content f \<noteq> None"
  shows "(\<exists>g. load_files sum256 files = Inl (InvalidMigrationName g))
           = (\<exists>f\<in>set files. is_migration_file f \<and> CHR ''_'' \<notin> set (entry_name f))"
  using assms
proof (induction files)
  case Nil
  then show ?case by simp
next
  case (Cons f fs)
  then have ih: "(\<exists>g. load_files sum256 fs = Inl (InvalidMigrationName g))
           = (\<exists>f\<in>set fs. is_migration_file f \<and> CHR ''_'' \<notin> set (entry_name f))" by simp
  from Cons.prems obtain raw where raw: "entry_content f = Some raw" by auto
  show ?case
  proof (cases "is_migration_file f")
    case False
    then have "load_files sum256 (f # fs) = load_files sum256 fs"
      by (auto simp: is_migration_file_def)
    with False ih show ?thesis by simp
  next
    case True
    then have m: "\<not> entry_is_dir f" "strings_HasSuffix (entry_name f) ''.sql''"
      by (simp_all add: is_migration_file_def)
    show ?thesis
    proof (cases "CHR ''_'' \<in> set (entry_name f)")
      case False
      from load_files_head(1)[OF m raw False] True False show ?thesis by auto
    next
      case u: True
      from load_files_head(2)[OF m raw u, of sum256 fs]
      have "(\<exists>g. load_files sum256 (f # fs) = Inl (InvalidMigrationName g))
              = (\<exists>g. load_files sum256 fs = Inl (InvalidMigrationName g))"
        by (cases "load_files sum256 fs") simp_all
      with ih u show ?thesis by simp
    qed
  qed
qed

section \<open>Lemmas on the array literal\<close>

lemma concat_map_other:
  "c \<notin> set a \<Longrightarrow> concat (map (\<lambda>x. if x = c then new else [x]) a) = a"
  by (induction a) auto

lemma strings_ReplaceAll_char:
  "strings_ReplaceAll s [c] new = concat (map (\<lambda>x. if x = c then new else [x]) s)"
proof (induction s "[c]" new rule: strings_ReplaceAll.induct)
  case (1 s new)
  show ?case
  proof (cases "strings_Index s [c]")
    case None
    then have "c \<notin> set s" by (simp add: strings_Index_char_None_iff)
    then have "concat (map (\<lambda>x. if x = c then new else [x]) s) = s"
      by (rule concat_map_other)
    with None show ?thesis by (subst strings_ReplaceAll.simps) simp
  next
    case (Some m)
    define a where "a = take m s"
    define b where "b = drop (m + 1) s"
    from strings_Index_split[OF Some]
    have s: "s = a @ [c] @ b" by (simp add: a_def b_def)
    have "strings_Index a [c] = None"
      unfolding a_def by (rule strings_Index_take[OF Some]) simp
    then have "c \<notin> set a" by (simp add: strings_Index_char_None_iff)
    then have t: "concat (map (\<lambda>x. if x = c then new else [x]) a) = a"
      by (rule concat_map_other)
    have ih: "strings_ReplaceAll b [c] new
                = concat (map (\<lambda>x. if x = c then new else [x]) b)"
      unfolding b_def using "1.hyps"[OF _ Some] by simp
    have l: "strings_ReplaceAll s [c] new = a @ new @ strings_ReplaceAll b [c] new"
      using Some by (subst strings_ReplaceAll.simps) (simp add: a_def b_def)
    have r: "concat (map (\<lambda>x. if x = c then new else [x]) s)
            = a @ new @ concat (map (\<lambda>x. if x = c then new else [x]) b)"
      unfolding s using t by simp
    from l r ih show ?thesis by simp
  qed
qed

lemma backslash_neq_dquote: "backslash \<noteq> dquote"
  by (simp add: backslash_def dquote_def)

lemma escape_element_chars:
  "escape_element v = [dquote] @ concat (map escape_char v) @ [dquote]"
proof -
  have "concat (map (\<lambda>x. if x = dquote then [backslash, dquote] else [x])
          (concat (map (\<lambda>x. if x = backslash then [backslash, backslash] else [x]) v)))
        = concat (map escape_char v)"
    using backslash_neq_dquote by (induction v) (auto simp: escape_char_def)
  then show ?thesis
    by (simp add: escape_element_def strings_ReplaceAll_char)
qed

lemma read_quoted_dquote: "read_quoted acc (dquote # rest) = Some (rev acc, rest)"
  by (cases rest) simp_all

lemma read_quoted_backslash:
  "read_quoted acc (backslash # d # ds) = read_quoted (d # acc) ds"
  using backslash_neq_dquote by simp

lemma read_quoted_other:
  "c \<noteq> dquote \<Longrightarrow> c \<noteq> backslash \<Longrightarrow> rest \<noteq> [] \<Longrightarrow>
     read_quoted acc (c # rest) = read_quoted (c # acc) rest"
  by (cases rest) simp_all

lemma read_quoted_escaped:
  "read_quoted acc (concat (map escape_char v) @ dquote # rest) = Some (rev acc @ v, rest)"
proof (induction v arbitrary: acc)
  case Nil
  then show ?case by (simp add: read_quoted_dquote)
next
  case (Cons x v)
  show ?case
  proof (cases "x = backslash \<or> x = dquote")
    case True
    then have "escape_char x = [backslash, x]" by (auto simp: escape_char_def backslash_neq_dquote)
    then show ?thesis using Cons.IH[of "x # acc"]
      by (simp add: read_quoted_backslash backslash_neq_dquote del: read_quoted.simps)
  next
    case False
    then have "escape_char x = [x]" by (simp add: escape_char_def)
    then show ?thesis using Cons.IH[of "x # acc"] False
      by (simp add: read_quoted_other del: read_quoted.simps)
  qed
qed

lemma read_elements_escaped:
  "read_elements (strings_Join (map escape_element (x # xs)) '','' @ ''}'') = Some (x # xs)"
proof (induction xs arbitrary: x)
  case Nil
  have "read_elements (dquote # concat (map escape_char x) @ dquote # ''}'') = Some [x]"
    by (subst read_elements.simps) (simp add: read_quoted_escaped)
  then show ?case by (simp add: escape_element_chars)
next
  case (Cons y ys)
  have j: "strings_Join (map escape_element (x # y # ys)) '','' @ ''}''
        = dquote # concat (map escape_char x) @ dquote # CHR '','' #
            (strings_Join (map escape_element (y # ys)) '','' @ ''}'')"
    by (simp add: escape_element_chars)
  have ne: "CHR '','' # (strings_Join (map escape_element (y # ys)) '','' @ ''}'') \<noteq> ''}''"
    by simp
  show ?case
    unfolding j using Cons.IH[of y]
    by (subst read_elements.simps) (simp add: read_quoted_escaped del: strings_Join.simps)
qed



section \<open>Lemmas on the hash\<close>

lemma hex_length: "length (hex_EncodeToString src) = 2 * length src"
  by (induction src) (simp_all add: hex_EncodeToString_def)

lemma mask4: "(x :: 8 word) AND 0x0F = take_bit 4 x"
proof -
  have "(0x0F :: 8 word) = mask 4" by (simp add: mask_eq_exp_minus_1)
  then show ?thesis by (simp add: take_bit_eq_mask)
qed

lemma hi_nibble: "unat (drop_bit 4 (v :: 8 word)) < 16"
proof -
  have "unat v < 2 ^ 8" using unsigned_less[of v, where 'a = nat] by simp
  then have "unat v div 16 < 16" by simp
  moreover have "unat (drop_bit 4 v) = drop_bit 4 (unat v)" by (rule unat_drop_bit_eq)
  ultimately show ?thesis by (simp only: drop_bit_eq_div) simp
qed

lemma lo_nibble: "unat ((v :: 8 word) AND 0x0F) < 16"
  by (simp only: mask4 unsigned_take_bit_eq) (simp add: take_bit_eq_mod)

lemma hextable_nth: "n < 16 \<Longrightarrow> hextable ! n \<in> set hextable"
proof -
  have "length hextable = 16" by (simp add: hextable_def)
  then show "n < 16 \<Longrightarrow> hextable ! n \<in> set hextable" by (metis nth_mem)
qed

lemma hex_chars: "set (hex_EncodeToString src) \<subseteq> set hextable"
proof (induction src)
  case Nil
  then show ?case by (simp add: hex_EncodeToString_def)
next
  case (Cons v src)
  have "hextable ! unat (drop_bit 4 v) \<in> set hextable"
    by (rule hextable_nth[OF hi_nibble])
  moreover have "hextable ! unat (v AND 0x0F) \<in> set hextable"
    by (rule hextable_nth[OF lo_nibble])
  moreover have "hex_EncodeToString (v # src)
      = hextable ! unat (drop_bit 4 v) # hextable ! unat (v AND 0x0F) # hex_EncodeToString src"
    by (simp add: hex_EncodeToString_def)
  ultimately show ?case using Cons.IH by simp
qed

lemma hextable_inj: "i < 16 \<Longrightarrow> j < 16 \<Longrightarrow> hextable ! i = hextable ! j \<Longrightarrow> i = j"
proof -
  have "distinct hextable" by (simp add: hextable_def)
  moreover have "length hextable = 16" by (simp add: hextable_def)
  ultimately show "i < 16 \<Longrightarrow> j < 16 \<Longrightarrow> hextable ! i = hextable ! j \<Longrightarrow> i = j"
    by (simp add: nth_eq_iff_index_eq)
qed

lemma nibbles_inj:
  fixes v w :: "8 word"
  assumes "drop_bit 4 v = drop_bit 4 w" and "v AND 0x0F = w AND 0x0F"
  shows "v = w"
proof -
  from assms(2) have "take_bit 4 v = take_bit 4 w" by (simp only: mask4)
  with assms(1) show ?thesis
    by (metis bits_ident)
qed

lemma hex_byte_inj:
  fixes v w :: "8 word"
  assumes "[hextable ! unat (drop_bit 4 v), hextable ! unat (v AND 0x0F)]
           = [hextable ! unat (drop_bit 4 w), hextable ! unat (w AND 0x0F)]"
  shows "v = w"
proof -
  from assms have "unat (drop_bit 4 v) = unat (drop_bit 4 w)"
    using hextable_inj[OF hi_nibble hi_nibble] by simp
  then have a: "drop_bit 4 v = drop_bit 4 w" by (simp only: word_unat_eq_iff)
  from assms have "unat (v AND 0x0F) = unat (w AND 0x0F)"
    using hextable_inj[OF lo_nibble lo_nibble] by simp
  then have b: "v AND 0x0F = w AND 0x0F" by (simp only: word_unat_eq_iff)
  from a b show ?thesis by (rule nibbles_inj)
qed

lemma hex_inj:
  "hex_EncodeToString a = hex_EncodeToString b \<Longrightarrow> a = b"
proof (induction a arbitrary: b)
  case Nil
  then show ?case by (cases b) (simp_all add: hex_EncodeToString_def)
next
  case (Cons x xs)
  then obtain y ys where b: "b = y # ys" by (cases b) (simp_all add: hex_EncodeToString_def)
  with Cons.prems have "x = y" and "hex_EncodeToString xs = hex_EncodeToString ys"
    using hex_byte_inj[of x y] by (simp_all add: hex_EncodeToString_def)
  with Cons.IH b show ?case by simp
qed

lemma computeHash_eq_iff:
  "(computeHash sum256 a = computeHash sum256 b) = (\<forall>i<32. sum256 a i = sum256 b i)"
proof
  assume "computeHash sum256 a = computeHash sum256 b"
  then have "map (sum256 a) [0..<32] = map (sum256 b) [0..<32]"
    unfolding computeHash_def by (rule hex_inj)
  then show "\<forall>i<32. sum256 a i = sum256 b i" by (simp only: map_eq_conv) simp
next
  assume "\<forall>i<32. sum256 a i = sum256 b i"
  then have "map (sum256 a) [0..<32] = map (sum256 b) [0..<32]" by (simp only: map_eq_conv) simp
  then show "computeHash sum256 a = computeHash sum256 b" by (simp only: computeHash_def)
qed

lemma load_files_fields:
  "load_files sum256 files = Inr ms \<Longrightarrow> m \<in> set ms \<Longrightarrow>
     Hash m = computeHash sum256 (Raw m) \<and> Statements m = split_statements (Raw m)
     \<and> (\<exists>f\<in>set files. is_migration_file f \<and> entry_content f = Some (Raw m))"
proof (induction files arbitrary: ms)
  case Nil
  then show ?case by simp
next
  case (Cons f fs)
  show ?case
  proof (cases "is_migration_file f")
    case False
    with Cons.prems have "load_files sum256 fs = Inr ms" by (auto simp: is_migration_file_def)
    from Cons.IH[OF this Cons.prems(2)] show ?thesis by auto
  next
    case True
    with Cons.prems(1) obtain raw v n ms' where
      raw: "entry_content f = Some raw" and
      fs: "load_files sum256 fs = Inr ms'" and
      ms: "ms = \<lparr>Version = v, Name = n, Raw = raw, Statements = split_statements raw,
                  Hash = computeHash sum256 raw\<rparr> # ms'"
      by (auto simp: is_migration_file_def split: option.splits list.splits sum.splits)
    from Cons.prems(2) ms have "m = \<lparr>Version = v, Name = n, Raw = raw, Statements = split_statements raw,
                  Hash = computeHash sum256 raw\<rparr> \<or> m \<in> set ms'" by simp
    then show ?thesis
    proof
      assume "m = \<lparr>Version = v, Name = n, Raw = raw, Statements = split_statements raw,
                  Hash = computeHash sum256 raw\<rparr>"
      with raw True show ?thesis by simp
    next
      assume "m \<in> set ms'"
      from Cons.IH[OF fs this] show ?thesis by auto
    qed
  qed
qed

section \<open>Lemmas on the main loop\<close>

lemma attempted_append [simp]: "attempted (xs @ ys) = attempted xs @ attempted ys"
  by (induction xs rule: attempted.induct) simp_all

lemma succeeded_append [simp]: "succeeded (xs @ ys) = succeeded xs @ succeeded ys"
  by (induction xs rule: succeeded.induct) simp_all

lemma attempted_Exec [simp]: "attempted (map Exec stmts) = []"
  by (induction stmts) simp_all

lemma succeeded_Exec [simp]: "succeeded (map Exec stmts) = []"
  by (induction stmts) simp_all

lemma filter_skip_Exec [simp]: "filter (\<lambda>e. \<not> is_skip e) (map Exec stmts) = map Exec stmts"
  by (induction stmts) simp_all

lemma exec_statements_ok:
  "exec_statements drv stmts tx = (Inr tx', evs) \<Longrightarrow>
     sql_effect drv stmts tx = Some tx' \<and> evs = map Exec stmts"
proof (induction stmts arbitrary: tx evs)
  case Nil
  then show ?case by simp
next
  case (Cons q qs)
  then show ?case
    by (auto simp: tx_ExecContext_def split: option.splits prod.splits)
qed

lemma exec_statements_fail:
  "exec_statements drv stmts tx = (Inl q, evs) \<Longrightarrow>
     \<exists>k<length stmts. q = stmts ! k \<and> evs = map Exec (take (Suc k) stmts)
        \<and> sql_effect drv (take k stmts) tx \<noteq> None
        \<and> sql_effect drv (take (Suc k) stmts) tx = None"
proof (induction stmts arbitrary: tx evs)
  case Nil
  then show ?case by simp
next
  case (Cons s ss)
  show ?case
  proof (cases "exec_sql drv s tx")
    case None
    with Cons.prems have "q = s" "evs = [Exec s]" by (auto simp: tx_ExecContext_def)
    with None have "0 < length (s # ss) \<and> q = (s # ss) ! 0 \<and> evs = map Exec (take (Suc 0) (s # ss))
        \<and> sql_effect drv (take 0 (s # ss)) tx \<noteq> None
        \<and> sql_effect drv (take (Suc 0) (s # ss)) tx = None" by simp
    then show ?thesis by blast
  next
    case (Some tx')
    with Cons.prems obtain evs' where e: "exec_statements drv ss tx' = (Inl q, evs')"
      and evs: "evs = Exec s # evs'"
      by (auto simp: tx_ExecContext_def split: prod.splits)
    from Cons.IH[OF e] obtain k where k: "k < length ss" "q = ss ! k"
      "evs' = map Exec (take (Suc k) ss)" "sql_effect drv (take k ss) tx' \<noteq> None"
      "sql_effect drv (take (Suc k) ss) tx' = None" by blast
    with Some evs have "Suc k < length (s # ss) \<and> q = (s # ss) ! Suc k
        \<and> evs = map Exec (take (Suc (Suc k)) (s # ss))
        \<and> sql_effect drv (take (Suc k) (s # ss)) tx \<noteq> None
        \<and> sql_effect drv (take (Suc (Suc k)) (s # ss)) tx = None" by simp
    then show ?thesis by blast
  qed
qed

text \<open>The five ways one migration can end.\<close>

lemma apply_migration_cases:
  obtains
    (begin_failed) "begin_fails drv db"
      "apply_migration drv m db = (Some BeginError, db, [PrintApplying (Version m) (Name m), Begin])"
  | (stmt_failed) k where "\<not> begin_fails drv db" "k < length (Statements m)"
      "sql_effect drv (take k (Statements m)) db \<noteq> None"
      "sql_effect drv (take (Suc k) (Statements m)) db = None"
      "apply_migration drv m db =
         (Some (StatementError (Statements m ! k)), db,
          [PrintApplying (Version m) (Name m), Begin] @ map Exec (take (Suc k) (Statements m))
            @ [PrintStatementError, Rollback])"
  | (insert_failed) tx where "\<not> begin_fails drv db" "sql_effect drv (Statements m) db = Some tx"
      "tx_Insert drv (ledger_row m) tx = None"
      "apply_migration drv m db =
         (Some InsertError, db,
          [PrintApplying (Version m) (Name m), Begin] @ map Exec (Statements m)
            @ [Insert (ledger_row m), Rollback])"
  | (commit_failed) tx tx' where "\<not> begin_fails drv db" "sql_effect drv (Statements m) db = Some tx"
      "tx_Insert drv (ledger_row m) tx = Some tx'" "commit_fails drv tx'"
      "apply_migration drv m db =
         (Some CommitError, db,
          [PrintApplying (Version m) (Name m), Begin] @ map Exec (Statements m)
            @ [Insert (ledger_row m), Commit])"
  | (applied) tx tx' where "\<not> begin_fails drv db" "sql_effect drv (Statements m) db = Some tx"
      "tx_Insert drv (ledger_row m) tx = Some tx'" "\<not> commit_fails drv tx'"
      "apply_migration drv m db =
         (None, tx',
          [PrintApplying (Version m) (Name m), Begin] @ map Exec (Statements m)
            @ [Insert (ledger_row m), Commit, PrintSuccess (Version m)])"
proof (cases "begin_fails drv db")
  case True
  then have "apply_migration drv m db
      = (Some BeginError, db, [PrintApplying (Version m) (Name m), Begin])"
    by (simp add: apply_migration_def db_BeginTx_def)
  with True show ?thesis by (rule begin_failed)
next
  case nb: False
  obtain r evs where ex: "exec_statements drv (Statements m) db = (r, evs)"
    by (cases "exec_statements drv (Statements m) db")
  show ?thesis
  proof (cases r)
    case (Inl q)
    from exec_statements_fail[OF ex[unfolded Inl]] obtain k where
      k: "k < length (Statements m)" "q = Statements m ! k"
         "evs = map Exec (take (Suc k) (Statements m))"
         "sql_effect drv (take k (Statements m)) db \<noteq> None"
         "sql_effect drv (take (Suc k) (Statements m)) db = None" by blast
    have "apply_migration drv m db =
         (Some (StatementError (Statements m ! k)), db,
          [PrintApplying (Version m) (Name m), Begin] @ map Exec (take (Suc k) (Statements m))
            @ [PrintStatementError, Rollback])"
      using nb ex Inl k(2,3) by (simp add: apply_migration_def db_BeginTx_def tx_Rollback_def)
    with nb k(1,4,5) show ?thesis by (rule stmt_failed)
  next
    case (Inr tx)
    from exec_statements_ok[OF ex[unfolded Inr]]
    have se: "sql_effect drv (Statements m) db = Some tx" and evs: "evs = map Exec (Statements m)"
      by simp_all
    show ?thesis
    proof (cases "tx_Insert drv (ledger_row m) tx")
      case None
      have "apply_migration drv m db =
         (Some InsertError, db,
          [PrintApplying (Version m) (Name m), Begin] @ map Exec (Statements m)
            @ [Insert (ledger_row m), Rollback])"
        using nb ex Inr evs None
        by (simp add: apply_migration_def db_BeginTx_def tx_Rollback_def)
      with nb se None show ?thesis by (rule insert_failed)
    next
      case (Some tx')
      show ?thesis
      proof (cases "commit_fails drv tx'")
        case True
        have "apply_migration drv m db =
         (Some CommitError, db,
          [PrintApplying (Version m) (Name m), Begin] @ map Exec (Statements m)
            @ [Insert (ledger_row m), Commit])"
          using nb ex Inr evs Some True
          by (simp add: apply_migration_def db_BeginTx_def tx_Commit_def)
        with nb se Some True show ?thesis by (rule commit_failed)
      next
        case False
        have "apply_migration drv m db =
         (None, tx',
          [PrintApplying (Version m) (Name m), Begin] @ map Exec (Statements m)
            @ [Insert (ledger_row m), Commit, PrintSuccess (Version m)])"
          using nb ex Inr evs Some False
          by (simp add: apply_migration_def db_BeginTx_def tx_Commit_def)
        with nb se Some False show ?thesis by (rule applied)
      qed
    qed
  qed
qed

lemma apply_migration_events:
  assumes "apply_migration drv m db = (r, db', evs)"
  shows "filter (\<lambda>e. \<not> is_skip e) evs = evs \<and> attempted evs = [Version m]
     \<and> succeeded evs = (if r = None then [Version m] else []) \<and> (r \<noteq> None \<longrightarrow> db' = db)"
proof (cases drv db m rule: apply_migration_cases)
  case begin_failed
  with assms show ?thesis by auto
next
  case (stmt_failed k)
  with assms show ?thesis by auto
next
  case (insert_failed tx)
  with assms show ?thesis by auto
next
  case (commit_failed tx tx')
  with assms show ?thesis by auto
next
  case (applied tx tx')
  with assms show ?thesis by auto
qed

lemma apply_all_skip:
  "applied (Version m) \<noteq> None \<Longrightarrow>
     apply_all drv applied (m # ms) db =
       (case apply_all drv applied ms db of
          (r, db', evs) \<Rightarrow> (r, db', PrintAlreadyApplied (Version m) (Name m) # evs))"
  by simp

lemma apply_all_fail:
  "applied (Version m) = None \<Longrightarrow> apply_migration drv m db = (Some e, db', evs) \<Longrightarrow>
     apply_all drv applied (m # ms) db = (Some e, db', evs)"
  by simp

lemma apply_all_ok:
  "applied (Version m) = None \<Longrightarrow> apply_migration drv m db = (None, db', evs) \<Longrightarrow>
     apply_all drv applied (m # ms) db =
       (case apply_all drv applied ms db' of (r, db'', evs') \<Rightarrow> (r, db'', evs @ evs'))"
  by simp

lemma apply_all_dom:
  "dom applied = dom applied' \<Longrightarrow> apply_all drv applied ms db = apply_all drv applied' ms db"
proof (induction ms arbitrary: db)
  case Nil
  then show ?case by simp
next
  case (Cons m ms)
  from Cons.prems have "(applied (Version m) = None) = (applied' (Version m) = None)"
    by (metis domIff)
  with Cons.IH[OF Cons.prems] show ?case
    by (cases "applied (Version m) = None") (simp_all split: prod.split option.split)
qed

lemma apply_all_pending:
  "apply_all drv applied ms db = (r, db', evs) \<Longrightarrow>
     apply_all drv Map.empty (spec_pending applied ms) db
       = (r, db', filter (\<lambda>e. \<not> is_skip e) evs)"
proof (induction ms arbitrary: db r db' evs)
  case Nil
  then show ?case by (simp add: spec_pending_def)
next
  case (Cons m ms)
  show ?case
  proof (cases "applied (Version m) = None")
    case False
    then obtain h where h: "applied (Version m) = Some h" by auto
    obtain r1 d1 e1 where rest: "apply_all drv applied ms db = (r1, d1, e1)"
      by (cases "apply_all drv applied ms db") auto
    with False Cons.prems have "r = r1" "db' = d1" "evs = PrintAlreadyApplied (Version m) (Name m) # e1"
      by auto
    with Cons.IH[OF rest] h show ?thesis by (simp add: spec_pending_def)
  next
    case True
    obtain r0 d0 e0 where one: "apply_migration drv m db = (r0, d0, e0)"
      by (cases "apply_migration drv m db") auto
    from apply_migration_events[OF one] have f0: "filter (\<lambda>e. \<not> is_skip e) e0 = e0" by simp
    show ?thesis
    proof (cases r0)
      case None
      obtain r1 d1 e1 where rest: "apply_all drv applied ms d0 = (r1, d1, e1)"
        by (cases "apply_all drv applied ms d0") auto
      with True one None Cons.prems have "r = r1" "db' = d1" "evs = e0 @ e1" by auto
      with Cons.IH[OF rest] True one None f0 show ?thesis by (simp add: spec_pending_def)
    next
      case (Some e)
      with True one Cons.prems have "r = Some e" "db' = d0" "evs = e0" by auto
      with True one Some f0 show ?thesis by (simp add: spec_pending_def)
    qed
  qed
qed

lemma apply_all_attempts:
  "apply_all drv applied ms db = (r, db', evs) \<Longrightarrow>
     prefix (attempted evs) (map Version (spec_pending applied ms))
     \<and> (r = None \<longrightarrow> attempted evs = map Version (spec_pending applied ms)
                    \<and> succeeded evs = map Version (spec_pending applied ms))"
proof (induction ms arbitrary: db r db' evs)
  case Nil
  then show ?case by (auto simp: spec_pending_def)
next
  case (Cons m ms)
  show ?case
  proof (cases "applied (Version m) = None")
    case False
    then obtain h where h: "applied (Version m) = Some h" by auto
    obtain r1 d1 e1 where rest: "apply_all drv applied ms db = (r1, d1, e1)"
      by (cases "apply_all drv applied ms db") auto
    with False Cons.prems have "r = r1" "db' = d1" "evs = PrintAlreadyApplied (Version m) (Name m) # e1"
      by auto
    with Cons.IH[OF rest] h show ?thesis by (simp add: spec_pending_def)
  next
    case True
    obtain r0 d0 e0 where one: "apply_migration drv m db = (r0, d0, e0)"
      by (cases "apply_migration drv m db") auto
    note ev = apply_migration_events[OF one]
    show ?thesis
    proof (cases r0)
      case None
      obtain r1 d1 e1 where rest: "apply_all drv applied ms d0 = (r1, d1, e1)"
        by (cases "apply_all drv applied ms d0") auto
      with True one None Cons.prems have "r = r1" "db' = d1" "evs = e0 @ e1" by auto
      with Cons.IH[OF rest] True None ev show ?thesis by (simp add: spec_pending_def)
    next
      case (Some e)
      with True one Cons.prems have "r = Some e" "db' = d0" "evs = e0" by auto
      with True Some ev show ?thesis by (simp add: spec_pending_def)
    qed
  qed
qed




lemma scan_rows_total:
  "\<forall>r\<in>set rows. \<not> scan_fails drv r \<Longrightarrow>
     scan_rows drv rows m0 = Inr (foldl (\<lambda>applied r. applied(row_version r \<mapsto> row_hash r)) m0 rows)"
  by (induction rows arbitrary: m0) simp_all

lemma scan_rows_keys:
  "scan_rows drv rows m0 = Inr applied \<Longrightarrow>
     (applied v \<noteq> None) = (m0 v \<noteq> None \<or> v \<in> set (map row_version rows))"
proof (induction rows arbitrary: m0)
  case Nil
  then show ?case by simp
next
  case (Cons r rs)
  from Cons.prems have "scan_rows drv rs (m0(row_version r \<mapsto> row_hash r)) = Inr applied"
    by (simp split: if_splits)
  from Cons.IH[OF this] show ?case by auto
qed

lemma fetch_applied_iff:
  "fetch_applied drv db = Inr applied \<Longrightarrow>
     (applied v \<noteq> None) = (v \<in> set (map row_version (rows_Next drv db)))"
  using scan_rows_keys[of drv "rows_Next drv db" Map.empty applied v]
  by (simp add: fetch_applied_def split: if_splits)

lemma rows_Next_subset: "set (rows_Next drv db) \<subseteq> set (ledger db)"
  by (auto simp: rows_Next_def split: option.splits dest: in_set_takeD)

lemma empty_content_no_statements:
  "strings_TrimSpace raw = [] \<Longrightarrow> split_statements raw = []"
  by (simp add: split_statements_def
      strings_Split_None[OF breakpoint_nonempty strings_TrimSpace_empty_free])

section \<open>Lemmas on the order of versions\<close>



section \<open>Lemmas on the insertion sort of \<open>sort.Slice\<close>\<close>



lemma length_sift [simp]: "length (sift lt x ys) = Suc (length ys)"
  by (induction ys) simp_all












section \<open>The claims\<close>

subsection \<open>Statement splitting\<close>

text \<open>
  C3, as the specification states it: the text is split at every line whose trimmed
  content is the marker, and an occurrence of the marker text that is not a whole line
  does not split. The program splits at the marker text wherever it stands: on
  \<open>a -- statement-breakpoint b\<close> it yields the two statements \<open>a\<close> and \<open>b\<close>, where
  the line-wise reading yields the whole line as one statement.
\<close>

theorem split_statements_line_counterexample:
  "split_statements ''a -- statement-breakpoint b'' = [''a'', ''b''] \<and>
   spec_split_statements ''a -- statement-breakpoint b'' = [''a -- statement-breakpoint b'']"
  by code_simp

text \<open>
  C3, amended: the statement list is obtained by splitting the content at every
  occurrence of the marker text, whether or not it is a whole line, then trimming each
  chunk and dropping the chunks that are empty after trimming, in order. Every text is
  its marker-free chunks joined by the marker, and a text written as marker-free chunks
  joined by the marker yields exactly the trimmed non-empty chunks. A file with no
  marker yields the single statement that is its whole trimmed content, or no statement
  if it trims to empty.
\<close>

theorem split_statements_at_every_marker:
  "strings_Join (strings_Split raw breakpoint) breakpoint = raw \<and>
   (\<forall>c\<in>set (strings_Split raw breakpoint). strings_Index c breakpoint = None) \<and>
   (\<forall>chunks. (\<forall>c\<in>set chunks. strings_Index c breakpoint = None) \<longrightarrow>
      split_statements (strings_Join chunks breakpoint)
        = filter (\<lambda>stmt. stmt \<noteq> []) (map strings_TrimSpace chunks)) \<and>
   (strings_Index raw breakpoint = None \<longrightarrow>
      split_statements raw = (if strings_TrimSpace raw = [] then [] else [strings_TrimSpace raw]))"
proof (intro conjI allI impI ballI)
  show "strings_Join (strings_Split raw breakpoint) breakpoint = raw"
    by (rule strings_Join_Split[OF breakpoint_nonempty])
next
  fix c assume "c \<in> set (strings_Split raw breakpoint)"
  then show "strings_Index c breakpoint = None"
    by (rule strings_Split_chunks_free[OF breakpoint_nonempty])
next
  fix chunks assume "\<forall>c\<in>set chunks. strings_Index c breakpoint = None"
  then show "split_statements (strings_Join chunks breakpoint)
        = filter (\<lambda>stmt. stmt \<noteq> []) (map strings_TrimSpace chunks)"
    by (rule split_statements_Join)
next
  assume "strings_Index raw breakpoint = None"
  then show "split_statements raw = (if strings_TrimSpace raw = [] then [] else [strings_TrimSpace raw])"
    by (simp add: split_statements_def strings_Split_None[OF breakpoint_nonempty])
qed

theorem split_statements_at_every_marker_witness:
  "split_statements (strings_Join [''a '', '' b;'', '' ''] breakpoint) = [''a'', ''b;''] \<and>
   split_statements ''  select 1;  '' = [''select 1;''] \<and>
   strings_Join (strings_Split ''x-- statement-breakpointy'' breakpoint) breakpoint
     = ''x-- statement-breakpointy''"
proof -
  have h: "\<forall>c\<in>set [''a '', '' b;'', '' '']. strings_Index c breakpoint = None"
    by code_simp
  have n: "strings_Index ''  select 1;  '' breakpoint = None" by code_simp
  have t1: "filter (\<lambda>stmt. stmt \<noteq> []) (map strings_TrimSpace [''a '', '' b;'', '' ''])
              = [''a'', ''b;'']"
    by code_simp
  have t2: "strings_TrimSpace ''  select 1;  '' = ''select 1;''" by code_simp
  note T = split_statements_at_every_marker[of "''  select 1;  ''"]
  note U = split_statements_at_every_marker[of "''x-- statement-breakpointy''"]
  from T have a:
    "split_statements (strings_Join [''a '', '' b;'', '' ''] breakpoint) = [''a'', ''b;'']"
    using h t1 by metis
  from T n t2 have b: "split_statements ''  select 1;  '' = [''select 1;'']" by simp
  from U have c:
    "strings_Join (strings_Split ''x-- statement-breakpointy'' breakpoint) breakpoint
       = ''x-- statement-breakpointy''" by blast
  from a b c show ?thesis by blast
qed

text \<open>
  C9: splitting is idempotent. The statements of any file, joined again with the marker
  and split again, are the same statements.
\<close>

theorem split_statements_idempotent:
  "split_statements (strings_Join (split_statements raw) breakpoint) = split_statements raw"
proof -
  have free: "\<forall>c\<in>set (split_statements raw). strings_Index c breakpoint = None"
    using split_statements_props(3) by blast
  have "filter (\<lambda>stmt. stmt \<noteq> []) (map strings_TrimSpace (split_statements raw))
          = split_statements raw"
  proof -
    have "map strings_TrimSpace (split_statements raw) = split_statements raw"
      by (rule map_idI) (rule split_statements_props(2))
    moreover have "filter (\<lambda>stmt. stmt \<noteq> []) (split_statements raw) = split_statements raw"
      by (simp add: split_statements_def)
    ultimately show ?thesis by simp
  qed
  with split_statements_Join[OF free] show ?thesis by simp
qed

theorem split_statements_idempotent_witness:
  "split_statements
     (strings_Join
        (split_statements ''  a; -- statement-breakpoint  -- statement-breakpoint b;'')
        breakpoint)
     = [''a;'', ''b;'']"
proof -
  have "split_statements ''  a; -- statement-breakpoint  -- statement-breakpoint b;''
          = [''a;'', ''b;'']"
    by code_simp
  with split_statements_idempotent[of "''  a; -- statement-breakpoint  -- statement-breakpoint b;''"]
  show ?thesis by simp
qed

subsection \<open>File names\<close>

text \<open>
  C4, as the specification states it: from a file name \<open>{version}_{name}.sql\<close> the
  loader recovers the name without the extension. The program keeps the extension: the
  name of \<open>20240101120000_create_users_table.sql\<close> is \<open>create_users_table.sql\<close>.
\<close>

theorem filename_name_keeps_extension_counterexample:
  "(case loadLocalMigrations (\<lambda>s i. 0) (\<lambda>less ms. ms)
           (Some [\<lparr>entry_name = ''20240101120000_create_users_table.sql'',
                   entry_is_dir = False, entry_content = Some ''select 1;''\<rparr>]) of
      Inr [m] \<Rightarrow> Version m = ''20240101120000'' \<and> Name m = ''create_users_table.sql''
                 \<and> Name m \<noteq> ''create_users_table''
    | _ \<Rightarrow> False)"
  by (simp add: loadLocalMigrations_def strings_HasSuffix_def strings_SplitN2_def suffix_def)

text \<open>
  C4, amended: for every file name \<open>{version}_{name}.sql\<close> whose version holds no
  underscore, the loader recovers that version, and as the name everything after the
  first underscore, the extension \<open>.sql\<close> included; the name itself may hold
  underscores.
\<close>

theorem filename_parts_recovered:
  assumes "CHR ''_'' \<notin> set version"
    and "entry_name f = version @ ''_'' @ name @ ''.sql''"
    and "\<not> entry_is_dir f"
    and "entry_content f = Some raw"
    and "load_files sum256 fs = Inr ms"
  shows "load_files sum256 (f # fs)
           = Inr (\<lparr>Version = version, Name = name @ ''.sql'', Raw = raw,
                   Statements = split_statements raw,
                   Hash = computeHash sum256 raw\<rparr> # ms)"
proof -
  have "strings_HasSuffix (entry_name f) ''.sql''"
    by (simp add: strings_HasSuffix_def assms(2) suffix_def)
  moreover have "strings_SplitN2 (entry_name f) ''_'' = [version, name @ ''.sql'']"
    using strings_SplitN2_first[OF assms(1), of "name @ ''.sql''"] by (simp add: assms(2))
  ultimately show ?thesis using assms(3,4,5) by simp
qed

theorem filename_parts_recovered_witness:
  "load_files (\<lambda>s i. 0)
     [\<lparr>entry_name = ''7_add_user_table.sql'', entry_is_dir = False, entry_content = Some ''x''\<rparr>]
   = Inr [\<lparr>Version = ''7'', Name = ''add_user_table.sql'', Raw = ''x'',
           Statements = split_statements ''x'', Hash = computeHash (\<lambda>s i. 0) ''x''\<rparr>]"
proof -
  have a: "CHR ''_'' \<notin> set ''7''" by simp
  have b: "entry_name \<lparr>entry_name = ''7_add_user_table.sql'', entry_is_dir = False,
             entry_content = Some ''x''\<rparr> = ''7'' @ ''_'' @ ''add_user_table'' @ ''.sql''" by simp
  have c: "\<not> entry_is_dir \<lparr>entry_name = ''7_add_user_table.sql'', entry_is_dir = False,
             entry_content = Some ''x''\<rparr>" by simp
  have d: "entry_content \<lparr>entry_name = ''7_add_user_table.sql'', entry_is_dir = False,
             entry_content = Some ''x''\<rparr> = Some ''x''" by simp
  have e: "load_files (\<lambda>s i. 0) [] = Inr []" by simp
  from filename_parts_recovered[OF a b c d e] show ?thesis by simp
qed

text \<open>
  C5, as the specification states it: a file name that starts with the separator (an
  empty version) is rejected. The program accepts \<open>_init.sql\<close>, with the empty string
  as its version.
\<close>

theorem empty_version_accepted_counterexample:
  "(case loadLocalMigrations (\<lambda>s i. 0) (\<lambda>less ms. ms)
           (Some [\<lparr>entry_name = ''_init.sql'', entry_is_dir = False,
                   entry_content = Some ''select 1;''\<rparr>]) of
      Inr [m] \<Rightarrow> Version m = '''' \<and> Name m = ''init.sql''
    | _ \<Rightarrow> False)"
  by (simp add: loadLocalMigrations_def strings_HasSuffix_def strings_SplitN2_def suffix_def)

text \<open>
  C5, amended: for a readable \<open>.sql\<close> file the loader fails with the error for an
  invalid migration name exactly if the file name holds no underscore. Then the whole
  load fails. A file name with an underscore is accepted, the version being what stands
  before the first underscore, empty or not. If every file can be read, the load fails
  with that error exactly if some \<open>.sql\<close> file of the directory has no underscore in
  its name.
\<close>

theorem invalid_name_iff_no_separator:
  "\<not> entry_is_dir f \<Longrightarrow> strings_HasSuffix (entry_name f) ''.sql'' \<Longrightarrow>
   entry_content f = Some raw \<Longrightarrow>
     (load_files sum256 (f # fs) = Inl (InvalidMigrationName (entry_name f)))
        = (CHR ''_'' \<notin> set (entry_name f))
     \<and> (CHR ''_'' \<notin> set (entry_name f) \<longrightarrow>
          loadLocalMigrations sum256 sort_Slice (Some (f # fs))
            = Inl (InvalidMigrationName (entry_name f)))
     \<and> (\<forall>ms. CHR ''_'' \<in> set (entry_name f) \<and> load_files sum256 fs = Inr ms \<longrightarrow>
          (\<exists>m. load_files sum256 (f # fs) = Inr (m # ms)
               \<and> Version m = takeWhile (\<lambda>c. c \<noteq> CHR ''_'') (entry_name f)))
     \<and> ((\<forall>g\<in>set fs. entry_content g \<noteq> None) \<longrightarrow>
          (\<exists>n. load_files sum256 (f # fs) = Inl (InvalidMigrationName n))
            = (\<exists>g\<in>set (f # fs). is_migration_file g \<and> CHR ''_'' \<notin> set (entry_name g)))"
proof -
  assume a: "\<not> entry_is_dir f" "strings_HasSuffix (entry_name f) ''.sql''"
    "entry_content f = Some raw"
  note h1 = load_files_head(1)[OF a, of sum256 fs]
  note h2 = load_files_head(2)[OF a, of sum256 fs]
  have c1: "(load_files sum256 (f # fs) = Inl (InvalidMigrationName (entry_name f)))
        = (CHR ''_'' \<notin> set (entry_name f))"
  proof
    assume e: "load_files sum256 (f # fs) = Inl (InvalidMigrationName (entry_name f))"
    then show "CHR ''_'' \<notin> set (entry_name f)" by (rule load_files_invalid_name)
  qed (rule h1)
  have c2: "CHR ''_'' \<notin> set (entry_name f) \<longrightarrow>
          loadLocalMigrations sum256 sort_Slice (Some (f # fs))
            = Inl (InvalidMigrationName (entry_name f))"
    using h1 by (simp add: loadLocalMigrations_def)
  have c3: "\<forall>ms. CHR ''_'' \<in> set (entry_name f) \<and> load_files sum256 fs = Inr ms \<longrightarrow>
          (\<exists>m. load_files sum256 (f # fs) = Inr (m # ms)
               \<and> Version m = takeWhile (\<lambda>c. c \<noteq> CHR ''_'') (entry_name f))"
    using h2 by auto
  have c4: "(\<forall>g\<in>set fs. entry_content g \<noteq> None) \<longrightarrow>
          (\<exists>n. load_files sum256 (f # fs) = Inl (InvalidMigrationName n))
            = (\<exists>g\<in>set (f # fs). is_migration_file g \<and> CHR ''_'' \<notin> set (entry_name g))"
  proof
    assume "\<forall>g\<in>set fs. entry_content g \<noteq> None"
    with a(3) have "\<forall>g\<in>set (f # fs). entry_content g \<noteq> None" by simp
    then show "(\<exists>n. load_files sum256 (f # fs) = Inl (InvalidMigrationName n))
            = (\<exists>g\<in>set (f # fs). is_migration_file g \<and> CHR ''_'' \<notin> set (entry_name g))"
      by (rule load_files_invalid_iff)
  qed
  from c1 c2 c3 c4 show ?thesis by blast
qed

theorem invalid_name_iff_no_separator_witness:
  "load_files (\<lambda>s i. 0)
     [\<lparr>entry_name = ''init.sql'', entry_is_dir = False, entry_content = Some ''x''\<rparr>,
      \<lparr>entry_name = ''1_a.sql'', entry_is_dir = False, entry_content = Some ''y''\<rparr>]
     = Inl (InvalidMigrationName ''init.sql'')
   \<and> loadLocalMigrations (\<lambda>s i. 0) (\<lambda>less ms. ms)
       (Some [\<lparr>entry_name = ''init.sql'', entry_is_dir = False, entry_content = Some ''x''\<rparr>,
              \<lparr>entry_name = ''1_a.sql'', entry_is_dir = False, entry_content = Some ''y''\<rparr>])
     = Inl (InvalidMigrationName ''init.sql'')"
proof -
  let ?f = "\<lparr>entry_name = ''init.sql'', entry_is_dir = False, entry_content = Some ''x''\<rparr>"
  let ?g = "\<lparr>entry_name = ''1_a.sql'', entry_is_dir = False, entry_content = Some ''y''\<rparr>"
  have a: "\<not> entry_is_dir ?f" by simp
  have b: "strings_HasSuffix (entry_name ?f) ''.sql''"
    by (simp add: strings_HasSuffix_def suffix_def)
  have c: "entry_content ?f = Some ''x''" by simp
  have d: "CHR ''_'' \<notin> set (entry_name ?f)" by simp
  note T = invalid_name_iff_no_separator[OF a b c, of "\<lambda>s i. 0" "[?g]" "\<lambda>less ms. ms"]
  from T d have "load_files (\<lambda>s i. 0) [?f, ?g] = Inl (InvalidMigrationName (entry_name ?f))"
    by blast
  moreover from T d have "loadLocalMigrations (\<lambda>s i. 0) (\<lambda>less ms. ms) (Some [?f, ?g])
     = Inl (InvalidMigrationName (entry_name ?f))"
    by blast
  ultimately show ?thesis by simp
qed

subsection \<open>The ledger array encoder\<close>

text \<open>
  C8: the encoder maps the empty sequence to \<open>{}\<close>, and for every sequence of
  statements, reading the literal it writes gives the sequence back. Every element is
  written in double quotes, a backslash before every backslash and every double quote
  of it.
\<close>

theorem formatPostgresArray_round_trip:
  "formatPostgresArray [] = ''{}''
   \<and> parse_text_array (formatPostgresArray arr) = Some arr
   \<and> escape_element v = [dquote] @ concat (map escape_char v) @ [dquote]"
proof (intro conjI)
  show "formatPostgresArray [] = ''{}''" by (simp add: formatPostgresArray_def)
next
  show "parse_text_array (formatPostgresArray arr) = Some arr"
  proof (cases arr)
    case Nil
    then show ?thesis by (simp add: parse_text_array_def formatPostgresArray_def)
  next
    case (Cons x xs)
    have "''{'' @ strings_Join (map escape_element (x # xs)) '','' @ ''}'' \<noteq> ''{}''"
      by (cases xs) (simp_all add: escape_element_chars dquote_def)
    then show ?thesis
      using read_elements_escaped[of x xs]
      by (simp add: parse_text_array_def formatPostgresArray_def Cons del: strings_Join.simps)
  qed
next
  show "escape_element v = [dquote] @ concat (map escape_char v) @ [dquote]"
    by (rule escape_element_chars)
qed

theorem formatPostgresArray_round_trip_witness:
  "parse_text_array (formatPostgresArray [[CHR ''a'', backslash, dquote, CHR ''b''], ''{c,d}'', ''''])
     = Some [[CHR ''a'', backslash, dquote, CHR ''b''], ''{c,d}'', '''']
   \<and> formatPostgresArray [[CHR ''a'', backslash, dquote, CHR ''b''], ''{c,d}'', '''']
     = ''{'' @ [dquote, CHR ''a'', backslash, backslash, backslash, dquote, CHR ''b'', dquote]
         @ '','' @ [dquote] @ ''{c,d}'' @ [dquote] @ '','' @ [dquote, dquote] @ ''}''"
proof -
  have "formatPostgresArray [[CHR ''a'', backslash, dquote, CHR ''b''], ''{c,d}'', '''']
     = ''{'' @ [dquote, CHR ''a'', backslash, backslash, backslash, dquote, CHR ''b'', dquote]
         @ '','' @ [dquote] @ ''{c,d}'' @ [dquote] @ '','' @ [dquote, dquote] @ ''}''"
    by code_simp
  with formatPostgresArray_round_trip[of "[[CHR ''a'', backslash, dquote, CHR ''b''], ''{c,d}'', '''']"]
  show ?thesis by blast
qed

subsection \<open>The content hash\<close>

text \<open>
  C7: the hash is a function of the raw text alone: 64 lower-case hexadecimal digits
  that are equal for two texts exactly if their SHA-256 digests are. Every migration
  the loader builds carries the hash of the unsplit content of its file, together with
  the statements split from that same content; two files with the same statements and
  different white space in between are hashed over different texts.
\<close>

theorem content_hash_of_raw_text:
  "length (computeHash sum256 raw) = 64
   \<and> set (computeHash sum256 raw) \<subseteq> set ''0123456789abcdef''
   \<and> ((computeHash sum256 raw = computeHash sum256 raw') = (\<forall>i<32. sum256 raw i = sum256 raw' i))
   \<and> (\<forall>ms. load_files sum256 files = Inr ms \<longrightarrow>
         (\<forall>m\<in>set ms. Hash m = computeHash sum256 (Raw m)
                      \<and> Statements m = split_statements (Raw m)
                      \<and> (\<exists>f\<in>set files. is_migration_file f \<and> entry_content f = Some (Raw m))))"
proof -
  have "length (computeHash sum256 raw) = 64"
    by (simp add: computeHash_def hex_length)
  moreover have "set (computeHash sum256 raw) \<subseteq> set ''0123456789abcdef''"
    using hex_chars[of "map (sum256 raw) [0..<32]"]
    by (simp only: computeHash_def hextable_def)
  moreover note computeHash_eq_iff[of sum256 raw raw']
  moreover have "\<forall>ms. load_files sum256 files = Inr ms \<longrightarrow>
         (\<forall>m\<in>set ms. Hash m = computeHash sum256 (Raw m)
                      \<and> Statements m = split_statements (Raw m)
                      \<and> (\<exists>f\<in>set files. is_migration_file f \<and> entry_content f = Some (Raw m)))"
    using load_files_fields[of sum256 files] by blast
  ultimately show ?thesis by blast
qed

theorem content_hash_of_raw_text_witness:
  "(case load_files (\<lambda>s i. of_nat (length s + i))
           [\<lparr>entry_name = ''1_a.sql'', entry_is_dir = False,
              entry_content = Some ''a; -- statement-breakpoint b;''\<rparr>,
            \<lparr>entry_name = ''2_b.sql'', entry_is_dir = False,
              entry_content = Some ''a;  -- statement-breakpoint b;''\<rparr>] of
      Inr [m1, m2] \<Rightarrow>
        Hash m1 = computeHash (\<lambda>s i. of_nat (length s + i)) ''a; -- statement-breakpoint b;''
        \<and> Hash m2 = computeHash (\<lambda>s i. of_nat (length s + i)) ''a;  -- statement-breakpoint b;''
        \<and> Statements m1 = Statements m2
        \<and> Hash m1 \<noteq> Hash m2
        \<and> length (Hash m1) = 64
    | _ \<Rightarrow> False)"
proof -
  let ?sum = "\<lambda>(s :: string) (i :: nat). (of_nat (length s + i) :: 8 word)"
  let ?r1 = "''a; -- statement-breakpoint b;''"
  let ?r2 = "''a;  -- statement-breakpoint b;''"
  note T = content_hash_of_raw_text[of ?sum ?r1 ?r2 "[]"]
  have "?sum ?r1 0 \<noteq> ?sum ?r2 0" by simp
  moreover have "(0::nat) < 32" by simp
  ultimately have "\<not> (\<forall>i<32. ?sum ?r1 i = ?sum ?r2 i)" by blast
  with T have ne: "computeHash ?sum ?r1 \<noteq> computeHash ?sum ?r2" by blast
  from T have len: "length (computeHash ?sum ?r1) = 64" by blast
  have st: "split_statements ?r1 = split_statements ?r2" by code_simp
  have sp1: "strings_SplitN2 ''1_a.sql'' ''_'' = [''1'', ''a.sql'']" by code_simp
  have sp2: "strings_SplitN2 ''2_b.sql'' ''_'' = [''2'', ''b.sql'']" by code_simp
  show ?thesis
    using ne len st
    by (simp add: strings_HasSuffix_def suffix_def sp1 sp2)
qed

subsection \<open>Which migrations are applied\<close>

text \<open>
  C2: a run of the loop over the local migrations does to the database, and returns,
  what a run over the pending ones alone does, where the pending ones are the
  migrations whose version is no key of the applied map, in their order; only the
  messages about the skipped ones are extra. The versions attempted are an initial part
  of the pending versions, and all of them when no migration fails. Only the keys of
  the applied map matter: a map with the same versions and other hashes gives the same
  run, and a migration whose version is in the map is skipped whatever its hash.
\<close>

theorem pending_by_version_presence:
  "apply_all drv applied ms db = (r, db', evs) \<Longrightarrow>
     apply_all drv Map.empty (spec_pending applied ms) db
       = (r, db', filter (\<lambda>e. \<not> is_skip e) evs)
     \<and> prefix (attempted evs) (map Version (spec_pending applied ms))
     \<and> (r = None \<longrightarrow> attempted evs = map Version (spec_pending applied ms)
                    \<and> succeeded evs = map Version (spec_pending applied ms))
     \<and> (\<forall>applied'. dom applied' = dom applied \<longrightarrow>
           apply_all drv applied' ms db = (r, db', evs))
     \<and> (\<forall>m h rest. applied (Version m) = Some h \<longrightarrow>
           apply_all drv applied (m # rest) db =
             (case apply_all drv applied rest db of
                (r', d, e) \<Rightarrow> (r', d, PrintAlreadyApplied (Version m) (Name m) # e)))"
proof -
  assume run: "apply_all drv applied ms db = (r, db', evs)"
  note a = apply_all_pending[OF run]
  note b = apply_all_attempts[OF run]
  have c: "\<forall>applied'. dom applied' = dom applied \<longrightarrow>
           apply_all drv applied' ms db = (r, db', evs)"
    using apply_all_dom[of _ applied drv ms db] run by simp
  have d: "\<forall>m h rest. applied (Version m) = Some h \<longrightarrow>
           apply_all drv applied (m # rest) db =
             (case apply_all drv applied rest db of
                (r', d, e) \<Rightarrow> (r', d, PrintAlreadyApplied (Version m) (Name m) # e))"
    by simp
  from a b c d show ?thesis by blast
qed

lemma ex_run_two:
  "apply_all ex_driver [''1'' \<mapsto> ''old''] [ex_migration ''1'' [''x''], ex_migration ''2'' [''a'']]
     \<lparr>ledger = [ex_row ''1'' ''{}''], user = []\<rparr>
   = (None,
      \<lparr>ledger = [ex_row ''1'' ''{}'', ex_row ''2'' (formatPostgresArray [''a''])], user = [''a'']\<rparr>,
      [PrintAlreadyApplied ''1'' ''m.sql'', PrintApplying ''2'' ''m.sql'', Begin, Exec ''a'',
       Insert (ex_row ''2'' (formatPostgresArray [''a''])), Commit, PrintSuccess ''2''])"
  by (simp add: apply_migration_def ex_driver_def ex_migration_def ex_row_def db_BeginTx_def
      tx_ExecContext_def tx_Insert_def tx_Commit_def ledger_row_def)

theorem pending_by_version_presence_witness:
  "apply_all ex_driver Map.empty
     (spec_pending [''1'' \<mapsto> ''old''] [ex_migration ''1'' [''x''], ex_migration ''2'' [''a'']])
     \<lparr>ledger = [ex_row ''1'' ''{}''], user = []\<rparr>
   = (None,
      \<lparr>ledger = [ex_row ''1'' ''{}'', ex_row ''2'' (formatPostgresArray [''a''])], user = [''a'']\<rparr>,
      [PrintApplying ''2'' ''m.sql'', Begin, Exec ''a'',
       Insert (ex_row ''2'' (formatPostgresArray [''a''])), Commit, PrintSuccess ''2''])
   \<and> map Version (spec_pending [''1'' \<mapsto> ''old''] [ex_migration ''1'' [''x''], ex_migration ''2'' [''a'']])
       = [''2'']
   \<and> Hash (ex_migration ''1'' [''x'']) \<noteq> ''old''"
proof -
  from pending_by_version_presence[OF ex_run_two]
  have "apply_all ex_driver Map.empty
     (spec_pending [''1'' \<mapsto> ''old''] [ex_migration ''1'' [''x''], ex_migration ''2'' [''a'']])
     \<lparr>ledger = [ex_row ''1'' ''{}''], user = []\<rparr>
   = (None,
      \<lparr>ledger = [ex_row ''1'' ''{}'', ex_row ''2'' (formatPostgresArray [''a''])], user = [''a'']\<rparr>,
      filter (\<lambda>e. \<not> is_skip e)
      [PrintAlreadyApplied ''1'' ''m.sql'', PrintApplying ''2'' ''m.sql'', Begin, Exec ''a'',
       Insert (ex_row ''2'' (formatPostgresArray [''a''])), Commit, PrintSuccess ''2''])"
    and "succeeded [PrintAlreadyApplied ''1'' ''m.sql'', PrintApplying ''2'' ''m.sql'', Begin, Exec ''a'',
       Insert (ex_row ''2'' (formatPostgresArray [''a''])), Commit, PrintSuccess ''2'']
      = map Version (spec_pending [''1'' \<mapsto> ''old''] [ex_migration ''1'' [''x''], ex_migration ''2'' [''a'']])"
    by blast+
  then show ?thesis by (simp add: ex_migration_def)
qed

subsection \<open>One migration, one transaction\<close>



subsection \<open>A migration without statements\<close>

text \<open>
  C10, as stated, counts a file of comments among the files without statements. A file
  that holds an SQL comment does not trim to empty: the comment is its one statement,
  it is executed, and the ledger row records it.
\<close>

theorem comment_only_file_counterexample:
  "split_statements ''-- only a comment'' = [''-- only a comment'']
   \<and> apply_migration ex_driver (ex_migration ''1'' (split_statements ''-- only a comment''))
        \<lparr>ledger = [], user = []\<rparr>
     = (None,
        \<lparr>ledger = [ex_row ''1'' (formatPostgresArray [''-- only a comment''])],
         user = [''-- only a comment'']\<rparr>,
        [PrintApplying ''1'' ''m.sql'', Begin, Exec ''-- only a comment'',
         Insert (ex_row ''1'' (formatPostgresArray [''-- only a comment''])), Commit,
         PrintSuccess ''1''])
   \<and> formatPostgresArray [''-- only a comment''] \<noteq> ''{}''"
proof -
  have a: "split_statements ''-- only a comment'' = [''-- only a comment'']" by code_simp
  have b: "formatPostgresArray [''-- only a comment''] \<noteq> ''{}''" by code_simp
  show ?thesis
    unfolding a using b
    by (simp add: apply_migration_def ex_driver_def ex_migration_def ex_row_def db_BeginTx_def
      tx_ExecContext_def tx_Insert_def tx_Commit_def ledger_row_def)
qed

text \<open>
  C10, amended: a migration without statements (as a file has whose content trims to
  empty) is applied, when pending, by a transaction that executes no statement and
  inserts one ledger row: its version, name and hash, the statements \<open>{}\<close>, the origin
  \<open>supabase-direct-migrate\<close> and no idempotency key. A later run reports the migration
  as already applied when its read of the ledger delivers a row with this version, as
  every read does that reaches the end of a ledger holding the version. The read of the
  ledger returns a map when the query and every scan succeed.
\<close>

theorem empty_migration_recorded:
  "Statements m = [] \<Longrightarrow> \<not> begin_fails (drv :: 'u Driver) db \<Longrightarrow>
   Version m \<notin> set (map row_version (ledger db)) \<Longrightarrow>
   \<not> insert_fails drv (ledger_row m) db \<Longrightarrow>
   \<not> commit_fails drv (db\<lparr>ledger := ledger db @ [ledger_row m]\<rparr>) \<Longrightarrow>
     ledger_row m =
       \<lparr>row_version = Version m, row_name = Name m, row_hash = Hash m,
        row_statements = ''{}'', row_created_by = ''supabase-direct-migrate'',
        row_idempotency_key = None\<rparr>
     \<and> apply_migration drv m db =
         (None, db\<lparr>ledger := ledger db @ [ledger_row m]\<rparr>,
          [PrintApplying (Version m) (Name m), Begin, Insert (ledger_row m), Commit,
           PrintSuccess (Version m)])
     \<and> (\<forall>applied. fetch_applied drv db = Inr applied \<longrightarrow>
           apply_all drv applied [m] db =
             (None, db\<lparr>ledger := ledger db @ [ledger_row m]\<rparr>,
              [PrintApplying (Version m) (Name m), Begin, Insert (ledger_row m), Commit,
               PrintSuccess (Version m)]))
     \<and> (\<forall>(drv' :: 'u Driver) db'' applied rest.
           fetch_applied drv' db'' = Inr applied
           \<and> Version m \<in> set (map row_version (rows_Next drv' db'')) \<longrightarrow>
           apply_all drv' applied (m # rest) db'' =
             (case apply_all drv' applied rest db'' of
                (r, d, evs) \<Rightarrow> (r, d, PrintAlreadyApplied (Version m) (Name m) # evs)))
     \<and> (\<forall>(drv' :: 'u Driver) applied.
           fetch_applied drv' (db\<lparr>ledger := ledger db @ [ledger_row m]\<rparr>) = Inr applied
           \<and> next_breaks_after drv' (db\<lparr>ledger := ledger db @ [ledger_row m]\<rparr>) = None \<longrightarrow>
           apply_all drv' applied [m] (db\<lparr>ledger := ledger db @ [ledger_row m]\<rparr>)
             = (None, db\<lparr>ledger := ledger db @ [ledger_row m]\<rparr>,
                [PrintAlreadyApplied (Version m) (Name m)]))
     \<and> (\<forall>(drv' :: 'u Driver) db''.
           \<not> query_fails drv' db'' \<and> (\<forall>r\<in>set (rows_Next drv' db''). \<not> scan_fails drv' r) \<longrightarrow>
           (\<exists>applied. fetch_applied drv' db'' = Inr applied))
     \<and> (\<forall>raw. strings_TrimSpace raw = [] \<longrightarrow> split_statements raw = [])"
proof -
  assume st: "Statements m = []" and nb: "\<not> begin_fails drv db"
    and fresh: "Version m \<notin> set (map row_version (ledger db))"
    and ni: "\<not> insert_fails drv (ledger_row m) db"
    and nc: "\<not> commit_fails drv (db\<lparr>ledger := ledger db @ [ledger_row m]\<rparr>)"
  let ?db' = "db\<lparr>ledger := ledger db @ [ledger_row m]\<rparr>"
  have row: "ledger_row m =
       \<lparr>row_version = Version m, row_name = Name m, row_hash = Hash m,
        row_statements = ''{}'', row_created_by = ''supabase-direct-migrate'',
        row_idempotency_key = None\<rparr>"
    by (simp add: ledger_row_def st formatPostgresArray_def)
  have rv: "row_version (ledger_row m) = Version m" by (simp add: ledger_row_def)
  have one: "apply_migration drv m db =
         (None, ?db',
          [PrintApplying (Version m) (Name m), Begin, Insert (ledger_row m), Commit,
           PrintSuccess (Version m)])"
    using st nb fresh ni nc
    by (simp add: apply_migration_def db_BeginTx_def tx_Insert_def tx_Commit_def rv)
  have first: "\<forall>applied. fetch_applied drv db = Inr applied \<longrightarrow>
           apply_all drv applied [m] db =
             (None, ?db',
              [PrintApplying (Version m) (Name m), Begin, Insert (ledger_row m), Commit,
               PrintSuccess (Version m)])"
  proof (intro allI impI)
    fix applied
    assume f: "fetch_applied drv db = Inr applied"
    from fresh rows_Next_subset[of drv db]
    have "Version m \<notin> set (map row_version (rows_Next drv db))" by auto
    with fetch_applied_iff[OF f, of "Version m"] have "applied (Version m) = None" by simp
    with one show "apply_all drv applied [m] db =
             (None, ?db',
              [PrintApplying (Version m) (Name m), Begin, Insert (ledger_row m), Commit,
               PrintSuccess (Version m)])"
      by simp
  qed
  have later: "\<forall>(drv' :: 'u Driver) db'' applied rest.
           fetch_applied drv' db'' = Inr applied
           \<and> Version m \<in> set (map row_version (rows_Next drv' db'')) \<longrightarrow>
           apply_all drv' applied (m # rest) db'' =
             (case apply_all drv' applied rest db'' of
                (r, d, evs) \<Rightarrow> (r, d, PrintAlreadyApplied (Version m) (Name m) # evs))"
  proof (intro allI impI)
    fix drv' :: "'u Driver" and db'' :: "'u Database" and applied rest
    assume a: "fetch_applied drv' db'' = Inr applied
           \<and> Version m \<in> set (map row_version (rows_Next drv' db''))"
    then have f: "fetch_applied drv' db'' = Inr applied" by simp
    from a fetch_applied_iff[OF f, of "Version m"] have "applied (Version m) \<noteq> None" by simp
    then show "apply_all drv' applied (m # rest) db'' =
             (case apply_all drv' applied rest db'' of
                (r, d, evs) \<Rightarrow> (r, d, PrintAlreadyApplied (Version m) (Name m) # evs))"
      by (rule apply_all_skip)
  qed
  have second: "\<forall>(drv' :: 'u Driver) applied.
           fetch_applied drv' ?db' = Inr applied \<and> next_breaks_after drv' ?db' = None \<longrightarrow>
           apply_all drv' applied [m] ?db' = (None, ?db', [PrintAlreadyApplied (Version m) (Name m)])"
  proof (intro allI impI)
    fix drv' :: "'u Driver" and applied
    assume a: "fetch_applied drv' ?db' = Inr applied \<and> next_breaks_after drv' ?db' = None"
    then have f: "fetch_applied drv' ?db' = Inr applied" by simp
    from a have "rows_Next drv' ?db' = ledger ?db'" by (simp add: rows_Next_def)
    then have "Version m \<in> set (map row_version (rows_Next drv' ?db'))" by (simp add: rv)
    with fetch_applied_iff[OF f, of "Version m"] have "applied (Version m) \<noteq> None" by simp
    then show "apply_all drv' applied [m] ?db'
        = (None, ?db', [PrintAlreadyApplied (Version m) (Name m)])"
      by simp
  qed
  have total: "\<forall>(drv' :: 'u Driver) db''.
           \<not> query_fails drv' db'' \<and> (\<forall>r\<in>set (rows_Next drv' db''). \<not> scan_fails drv' r) \<longrightarrow>
           (\<exists>applied. fetch_applied drv' db'' = Inr applied)"
  proof (intro allI impI)
    fix drv' :: "'u Driver" and db'' :: "'u Database"
    assume a: "\<not> query_fails drv' db'' \<and> (\<forall>r\<in>set (rows_Next drv' db''). \<not> scan_fails drv' r)"
    then have "\<forall>r\<in>set (rows_Next drv' db''). \<not> scan_fails drv' r" by simp
    from scan_rows_total[OF this, of Map.empty] a
    show "\<exists>applied. fetch_applied drv' db'' = Inr applied" by (simp add: fetch_applied_def)
  qed
  have triv: "\<forall>raw. strings_TrimSpace raw = [] \<longrightarrow> split_statements raw = []"
    using empty_content_no_statements by blast
  show ?thesis
    by (intro conjI) (rule row, rule one, rule first, rule later, rule second, rule total, rule triv)
qed

theorem empty_migration_recorded_witness:
  "fetch_applied ex_driver \<lparr>ledger = [], user = []\<rparr> = Inr Map.empty
   \<and> apply_all ex_driver Map.empty
       [ex_migration ''1'' (split_statements ''   '')] \<lparr>ledger = [], user = []\<rparr>
     = (None, \<lparr>ledger = [ex_row ''1'' ''{}''], user = []\<rparr>,
        [PrintApplying ''1'' ''m.sql'', Begin, Insert (ex_row ''1'' ''{}''), Commit,
         PrintSuccess ''1''])
   \<and> fetch_applied ex_driver \<lparr>ledger = [ex_row ''1'' ''{}''], user = []\<rparr> = Inr [''1'' \<mapsto> ''h'']
   \<and> apply_all ex_driver [''1'' \<mapsto> ''h'']
       [ex_migration ''1'' (split_statements ''   '')]
       \<lparr>ledger = [ex_row ''1'' ''{}''], user = []\<rparr>
     = (None, \<lparr>ledger = [ex_row ''1'' ''{}''], user = []\<rparr>,
        [PrintAlreadyApplied ''1'' ''m.sql''])"
proof -
  let ?m = "ex_migration ''1'' (split_statements ''   '')"
  let ?db = "\<lparr>ledger = [], user = []\<rparr> :: string list Database"
  let ?db1 = "\<lparr>ledger = [ex_row ''1'' ''{}''], user = []\<rparr> :: string list Database"
  have s: "split_statements ''   '' = []" by code_simp
  have st: "Statements ?m = []" by (simp add: ex_migration_def s)
  have nb: "\<not> begin_fails ex_driver ?db" by (simp add: ex_driver_def)
  have fresh: "Version ?m \<notin> set (map row_version (ledger ?db))" by simp
  have ni: "\<not> insert_fails ex_driver (ledger_row ?m) ?db" by (simp add: ex_driver_def)
  have nc: "\<not> commit_fails ex_driver (?db\<lparr>ledger := ledger ?db @ [ledger_row ?m]\<rparr>)"
    by (simp add: ex_driver_def)
  note T = empty_migration_recorded[OF st nb fresh ni nc]
  from T have "ledger_row ?m =
       \<lparr>row_version = Version ?m, row_name = Name ?m, row_hash = Hash ?m,
        row_statements = ''{}'', row_created_by = ''supabase-direct-migrate'',
        row_idempotency_key = None\<rparr>"
    by blast
  then have row: "ledger_row ?m = ex_row ''1'' ''{}''"
    by (simp add: ex_migration_def ex_row_def)
  have v: "Version ?m = ''1''" "Name ?m = ''m.sql''" by (simp_all add: ex_migration_def)
  have upd: "?db\<lparr>ledger := ledger ?db @ [ex_row ''1'' ''{}'']\<rparr> = ?db1" by simp
  have f0: "fetch_applied ex_driver ?db = Inr Map.empty"
    by (simp add: fetch_applied_def rows_Next_def ex_driver_def)
  have f1: "fetch_applied ex_driver ?db1 = Inr [''1'' \<mapsto> ''h'']"
    by (simp add: fetch_applied_def rows_Next_def ex_driver_def ex_row_def)
  have n1: "next_breaks_after ex_driver ?db1 = None" by (simp add: ex_driver_def)
  from T f0 have a: "apply_all ex_driver Map.empty [?m] ?db =
         (None, ?db\<lparr>ledger := ledger ?db @ [ledger_row ?m]\<rparr>,
          [PrintApplying (Version ?m) (Name ?m), Begin, Insert (ledger_row ?m), Commit,
           PrintSuccess (Version ?m)])"
    by blast
  from T have "\<forall>(drv' :: string list Driver) applied.
           fetch_applied drv' (?db\<lparr>ledger := ledger ?db @ [ledger_row ?m]\<rparr>) = Inr applied
           \<and> next_breaks_after drv' (?db\<lparr>ledger := ledger ?db @ [ledger_row ?m]\<rparr>) = None \<longrightarrow>
           apply_all drv' applied [?m] (?db\<lparr>ledger := ledger ?db @ [ledger_row ?m]\<rparr>)
             = (None, ?db\<lparr>ledger := ledger ?db @ [ledger_row ?m]\<rparr>,
                [PrintAlreadyApplied (Version ?m) (Name ?m)])"
    by blast
  with f1 n1 have b: "apply_all ex_driver [''1'' \<mapsto> ''h''] [?m] ?db1
         = (None, ?db1, [PrintAlreadyApplied (Version ?m) (Name ?m)])"
    unfolding row upd by blast
  from f0 a[unfolded row v upd] f1 b[unfolded v] show ?thesis by (intro conjI)
qed

text \<open>
  A read of the ledger that breaks off before the row of a version makes the run attempt
  that version again: the \<open>INSERT\<close> fails on the primary key and the run ends there,
  the committed state unchanged.
\<close>

lemma ex_read_breaks_off:
  "fetch_applied (ex_driver\<lparr>next_breaks_after := \<lambda>db. Some 0\<rparr>)
       \<lparr>ledger = [ex_row ''1'' ''{}''], user = []\<rparr> = Inr Map.empty
   \<and> apply_all (ex_driver\<lparr>next_breaks_after := \<lambda>db. Some 0\<rparr>) Map.empty
       [ex_migration ''1'' []] \<lparr>ledger = [ex_row ''1'' ''{}''], user = []\<rparr>
     = (Some InsertError, \<lparr>ledger = [ex_row ''1'' ''{}''], user = []\<rparr>,
        [PrintApplying ''1'' ''m.sql'', Begin, Insert (ex_row ''1'' ''{}''), Rollback])"
  by (simp add: fetch_applied_def rows_Next_def apply_migration_def ex_driver_def ex_migration_def
      ex_row_def db_BeginTx_def tx_Insert_def tx_Rollback_def ledger_row_def formatPostgresArray_def)

subsection \<open>The order of the loaded migrations\<close>




end
